theory Spec2Isabelle
  imports Complex_Main
begin

section \<open>Strings\<close>

text \<open>
  File names, extensions and paths are JavaScript strings. They are modelled as
  \<^typ>\<open>string\<close>: a character of the model is a UTF-16 code unit below 256 (Basic Latin
  and Latin-1), so names with other characters are not strings of the model. The
  separators the program splits on are \<open>.\<close> and \<open>/\<close>.
\<close>

text \<open>\<open>s.split(c)\<close> for a one-character separator: never empty, \<open>''''.split(c) = ['''']\<close>.\<close>

fun split :: "char \<Rightarrow> string \<Rightarrow> string list" where
  "split c [] = [[]]"
| "split c (x # xs) =
     (if x = c then [] # split c xs
      else (case split c xs of
              [] \<Rightarrow> [[x]]
            | s # ss \<Rightarrow> (x # s) # ss))"

text \<open>\<open>parts.pop()\<close>: the last element, \<open>undefined\<close> (here \<open>None\<close>) on an empty array.\<close>

definition pop :: "'a list \<Rightarrow> 'a option" where
  "pop xs = (if xs = [] then None else Some (last xs))"

text \<open>
  \<open>toLowerCase\<close>: below 256 the letters with a small form are \<open>A\<close> to \<open>Z\<close> (65 to 90) and
  the Latin-1 capitals 192 to 222 without the multiplication sign 215; the small form
  lies 32 places up. Every other code unit below 256 stays.
\<close>

definition lower_char :: "char \<Rightarrow> char" where
  "lower_char c =
     (let n = (of_char c :: nat)
      in if (65 \<le> n \<and> n \<le> 90) \<or> (192 \<le> n \<and> n \<le> 222 \<and> n \<noteq> 215) then char_of (n + 32)
         else c)"

definition toLowerCase :: "string \<Rightarrow> string" where
  "toLowerCase s = map lower_char s"

text \<open>
  \<open>name.split('.').pop()?.toLowerCase() || ''\<close>, the expression used by every scan
  (\<open>performScan\<close>, \<open>scanDirectory\<close>) and by \<open>fallbackCategorization\<close>.
\<close>

definition extension_of :: "string \<Rightarrow> string" where
  "extension_of nm =
     (case pop (split CHR ''.'' nm) of
        None \<Rightarrow> ''''
      | Some s \<Rightarrow> (let l = toLowerCase s in if l = '''' then '''' else l))"

text \<open>The decimal rendering of a non-negative integer, as in a template literal.\<close>

definition digit_char :: "nat \<Rightarrow> char" where
  "digit_char d = char_of (48 + d)"

function show_nat :: "nat \<Rightarrow> string" where
  "show_nat n = (if n < 10 then [digit_char n] else show_nat (n div 10) @ [digit_char (n mod 10)])"
  by pat_completeness auto
termination
  by (relation "measure id") auto

declare show_nat.simps [simp del]

text \<open>\<open>parts.join(sep)\<close>.\<close>

fun join :: "string \<Rightarrow> string list \<Rightarrow> string" where
  "join sep [] = ''''"
| "join sep [s] = s"
| "join sep (s # t # ts) = s @ sep @ join sep (t # ts)"

section \<open>Values\<close>

text \<open>
  What \<open>JSON.parse\<close> can return. The oracle's reply is not validated by the program, so
  every shape is kept. A number is kept by its string form, the one \<open>String(n)\<close> gives
  (\<open>0\<close>, \<open>-1.5\<close>, \<open>1e+21\<close>); zero, of either sign, is \<open>0\<close>, and JSON text has no \<open>NaN\<close>. An
  object is its list of own properties in source order (a later duplicate key wins).
\<close>

datatype json =
    JNull
  | JBool bool
  | JNumber string
  | JString string
  | JArray "json list"
  | JObject "(string \<times> json) list"

text \<open>
  What reading a property of one of the program's objects can give: a parsed value or a
  string of the program, or something the object inherits from \<open>Object.prototype\<close>: one
  of its functions, named by the property that holds it, or, for \<open>__proto__\<close>,
  \<open>Object.prototype\<close> itself.
\<close>

datatype val =
    Json json
  | Builtin string
  | ObjectPrototype

datatype exn = TypeError | SyntaxError | ClientError | RequestError | ReadError

text \<open>JavaScript truthiness; \<open>None\<close> stands for \<open>undefined\<close>.\<close>

fun truthy_json :: "json \<Rightarrow> bool" where
  "truthy_json JNull = False"
| "truthy_json (JBool b) = b"
| "truthy_json (JNumber n) = (n \<noteq> ''0'')"
| "truthy_json (JString s) = (s \<noteq> '''')"
| "truthy_json (JArray xs) = True"
| "truthy_json (JObject kvs) = True"

fun truthy :: "val \<Rightarrow> bool" where
  "truthy (Json v) = truthy_json v"
| "truthy (Builtin k) = True"
| "truthy ObjectPrototype = True"

fun truthy_opt :: "val option \<Rightarrow> bool" where
  "truthy_opt None = False"
| "truthy_opt (Some v) = truthy v"

text \<open>\<open>a || d\<close> where \<open>d\<close> is a defined value.\<close>

definition or_else :: "val option \<Rightarrow> val \<Rightarrow> val" where
  "or_else a d = (case a of None \<Rightarrow> d | Some v \<Rightarrow> if truthy v then v else d)"

text \<open>
  \<open>item.fileName\<close> and \<open>item.category\<close> on an element of the parsed reply: reading a
  property of \<open>null\<close> throws a \<open>TypeError\<close>; a missing property reads as \<open>undefined\<close>.
  The function is used for these two names only, which no prototype defines, so
  numbers, booleans, strings and arrays have neither.
\<close>

fun get_property :: "json \<Rightarrow> string \<Rightarrow> exn + json option" where
  "get_property JNull k = Inl TypeError"
| "get_property (JObject kvs) k = Inr (map_of (rev kvs) k)"
| "get_property v k = Inr None"

text \<open>
  The string a value becomes when it is used as a property key or as a directory name.
\<close>

fun ToString_json :: "json \<Rightarrow> string" where
  "ToString_json JNull = ''null''"
| "ToString_json (JBool b) = (if b then ''true'' else ''false'')"
| "ToString_json (JNumber n) = n"
| "ToString_json (JString s) = s"
| "ToString_json (JArray xs) =
     join '','' (map (\<lambda>x. if x = JNull then '''' else ToString_json x) xs)"
| "ToString_json (JObject kvs) = ''[object Object]''"

fun ToString :: "val \<Rightarrow> string" where
  "ToString (Json v) = ToString_json v"
| "ToString (Builtin k) =
     ''function '' @ (if k = ''constructor'' then ''Object'' else k) @ ''() { [native code] }''"
| "ToString ObjectPrototype = ''[object Object]''"

section \<open>Categories\<close>

text \<open>The enum \<open>FileCategory\<close> of \<open>types.ts\<close>; at run time a member is its string.\<close>

datatype FileCategory =
  DOCUMENTS | IMAGES | VIDEOS | ARCHIVES | INSTALLERS | CODE | AUDIO | UNKNOWN | JUNK

fun label :: "FileCategory \<Rightarrow> string" where
  "label DOCUMENTS = ''Documents''"
| "label IMAGES = ''Images''"
| "label VIDEOS = ''Videos''"
| "label ARCHIVES = ''Archives''"
| "label INSTALLERS = ''Installers''"
| "label CODE = ''Code''"
| "label AUDIO = ''Audio''"
| "label UNKNOWN = ''Unknown''"
| "label JUNK = ''Junk''"

definition js :: "FileCategory \<Rightarrow> val" where
  "js c = Json (JString (label c))"

text \<open>\<open>Object.values(FileCategory)\<close>: the closed set of category values.\<close>

definition FileCategory_values :: "val list" where
  "FileCategory_values =
     map js [DOCUMENTS, IMAGES, VIDEOS, ARCHIVES, INSTALLERS, CODE, AUDIO, UNKNOWN, JUNK]"

section \<open>Objects used as tables\<close>

text \<open>
  \<open>result\<close>, \<open>mapping\<close> and \<open>extensions\<close> are ordinary objects (\<open>{}\<close> or an object
  literal) indexed by strings that come from file names. Such an object is its list of
  own properties, in creation order, and it inherits from \<open>Object.prototype\<close>.
\<close>

type_synonym object = "(string \<times> val) list"

text \<open>The properties of \<open>Object.prototype\<close> that hold a function.\<close>

definition Object_prototype_functions :: "string list" where
  "Object_prototype_functions =
     [''constructor'', ''__defineGetter__'', ''__defineSetter__'', ''hasOwnProperty'',
      ''__lookupGetter__'', ''__lookupSetter__'', ''isPrototypeOf'', ''propertyIsEnumerable'',
      ''toString'', ''valueOf'', ''toLocaleString'']"

text \<open>
  What an object without an own property \<open>k\<close> gives for \<open>obj[k]\<close>: the getter of
  \<open>__proto__\<close> returns the prototype.
\<close>

definition inherited :: "string \<Rightarrow> val option" where
  "inherited k =
     (if k = ''__proto__'' then Some ObjectPrototype
      else if k \<in> set Object_prototype_functions then Some (Builtin k)
      else None)"

text \<open>\<open>obj[k]\<close>; \<open>None\<close> stands for \<open>undefined\<close>.\<close>

definition read_property :: "object \<Rightarrow> string \<Rightarrow> val option" where
  "read_property obj k = (case map_of obj k of Some v \<Rightarrow> Some v | None \<Rightarrow> inherited k)"

text \<open>
  \<open>obj[k] = v\<close>. An own property is overwritten where it stands, a new one is appended,
  also under a name the prototype has. Without an own property \<open>__proto__\<close> the
  assignment \<open>obj['__proto__'] = v\<close> runs the setter of \<open>Object.prototype\<close>: a string, a
  number or a boolean is ignored, and \<open>Object.prototype\<close> itself leaves the prototype as
  it is. Any other value would give the object another prototype; the model does not
  follow the program there (\<open>None\<close>).
\<close>

definition write_property :: "object \<Rightarrow> string \<Rightarrow> val \<Rightarrow> object option" where
  "write_property obj k v =
     (if k \<in> fst ` set obj
      then Some (map (\<lambda>(k', v'). if k' = k then (k', v) else (k', v')) obj)
      else if k = ''__proto__''
      then (case v of
              Json (JBool b) \<Rightarrow> Some obj
            | Json (JNumber n) \<Rightarrow> Some obj
            | Json (JString s) \<Rightarrow> Some obj
            | ObjectPrototype \<Rightarrow> Some obj
            | _ \<Rightarrow> None)
      else Some (obj @ [(k, v)]))"

section \<open>The categorization service (\<open>geminiService.ts\<close>)\<close>

text \<open>The table \<open>extensions\<close> of \<open>fallbackCategorization\<close>, an object literal.\<close>

definition extensions :: object where
  "extensions =
     [(''pdf'', js DOCUMENTS), (''docx'', js DOCUMENTS), (''txt'', js DOCUMENTS),
      (''jpg'', js IMAGES), (''png'', js IMAGES), (''gif'', js IMAGES), (''svg'', js IMAGES),
      (''mp4'', js VIDEOS), (''mov'', js VIDEOS), (''mkv'', js VIDEOS),
      (''zip'', js ARCHIVES), (''rar'', js ARCHIVES), (''tar'', js ARCHIVES),
      (''exe'', js INSTALLERS), (''dmg'', js INSTALLERS), (''pkg'', js INSTALLERS),
      (''js'', js CODE), (''ts'', js CODE), (''py'', js CODE), (''html'', js CODE),
      (''mp3'', js AUDIO), (''wav'', js AUDIO), (''flac'', js AUDIO)]"

text \<open>\<open>extensions[ext] || FileCategory.UNKNOWN\<close> for the extension of one name.\<close>

definition fallback_category :: "string \<Rightarrow> val" where
  "fallback_category nm = or_else (read_property extensions (extension_of nm)) (js UNKNOWN)"

text \<open>
  \<open>fallbackCategorization\<close>: one assignment \<open>mapping[name] = ...\<close> per name, in order,
  starting from \<open>{}\<close>.
\<close>

fun fallback_loop :: "string list \<Rightarrow> object \<Rightarrow> object option" where
  "fallback_loop [] mapping = Some mapping"
| "fallback_loop (nm # rest) mapping =
     (case write_property mapping nm (fallback_category nm) of
        None \<Rightarrow> None
      | Some mapping' \<Rightarrow> fallback_loop rest mapping')"

definition fallbackCategorization :: "string list \<Rightarrow> object option" where
  "fallbackCategorization fileNames = fallback_loop fileNames []"

text \<open>
  What happens to the request of \<open>categorizeFiles\<close>. The client object is built before
  the \<open>try\<close> block; the request and the reading of \<open>response.text\<close> are inside it;
  \<open>JSON.parse\<close> is inside the inner \<open>try\<close>.
\<close>

datatype oracle_run =
    ClientThrows
  | RequestRejected
  | EmptyText
  | Unparseable
  | Parsed json

text \<open>
  \<open>data.forEach(item => { if (item.fileName && item.category) result[item.fileName] =
  item.category })\<close>. A \<open>TypeError\<close> (a \<open>null\<close> item) leaves \<open>forEach\<close>; what was stored
  before stays in \<open>result\<close>. The category is stored as it came. The outer \<open>None\<close> is the
  \<open>None\<close> of \<open>write_property\<close>.
\<close>

fun store_items :: "json list \<Rightarrow> object \<Rightarrow> (object \<times> exn option) option" where
  "store_items [] result = Some (result, None)"
| "store_items (item # items) result =
     (case get_property item ''fileName'' of
        Inl e \<Rightarrow> Some (result, Some e)
      | Inr None \<Rightarrow> store_items items result
      | Inr (Some fileName) \<Rightarrow>
          if \<not> truthy_json fileName then store_items items result
          else (case get_property item ''category'' of
                  Inl e \<Rightarrow> Some (result, Some e)
                | Inr None \<Rightarrow> store_items items result
                | Inr (Some category) \<Rightarrow>
                    if \<not> truthy_json category then store_items items result
                    else (case write_property result (ToString_json fileName) (Json category) of
                            None \<Rightarrow> None
                          | Some result' \<Rightarrow> store_items items result')))"

text \<open>The inner \<open>try\<close>: parse, and store the items when the value is an array.\<close>

definition parse_result :: "oracle_run \<Rightarrow> object option" where
  "parse_result run =
     (case run of
        Parsed (JArray items) \<Rightarrow> map_option fst (store_items items [])
      | _ \<Rightarrow> Some [])"

text \<open>
  \<open>fileNames.forEach(name => { if (!result[name]) { const fallback =
  fallbackCategorization([name]); result[name] = fallback[name] } })\<close>. The test reads
  \<open>result[name]\<close> with what the object inherits.
\<close>

fun fill_missing :: "string list \<Rightarrow> object \<Rightarrow> object option" where
  "fill_missing [] result = Some result"
| "fill_missing (nm # rest) result =
     (if \<not> truthy_opt (read_property result nm) then
        (case fallbackCategorization [nm] of
           None \<Rightarrow> None
         | Some fallback \<Rightarrow>
             (case read_property fallback nm of
                None \<Rightarrow> None
              | Some v \<Rightarrow>
                  (case write_property result nm v of
                     None \<Rightarrow> None
                   | Some result' \<Rightarrow> fill_missing rest result')))
      else fill_missing rest result)"

text \<open>
  How a call ends: with a value, with an exception, or at a point where the model does
  not follow the program (the \<open>None\<close> of \<open>write_property\<close>).
\<close>

datatype 'a outcome = Returned 'a | Thrown exn | Unmodelled

definition returned :: "'a option \<Rightarrow> 'a outcome" where
  "returned r = (case r of None \<Rightarrow> Unmodelled | Some v \<Rightarrow> Returned v)"

definition categorizeFiles :: "oracle_run \<Rightarrow> string list \<Rightarrow> object outcome" where
  "categorizeFiles run fileNames =
     (case run of
        ClientThrows \<Rightarrow> Thrown ClientError
      | RequestRejected \<Rightarrow> returned (fallbackCategorization fileNames)
      | EmptyText \<Rightarrow> returned (fallbackCategorization fileNames)
      | _ \<Rightarrow>
          (case parse_result run of
             None \<Rightarrow> Unmodelled
           | Some result \<Rightarrow> returned (fill_missing fileNames result)))"

text \<open>
  A well-formed item of the reply, as the response schema asks for it:
  \<open>{fileName: nm, category: c}\<close>.
\<close>

definition answer_item :: "string \<Rightarrow> json \<Rightarrow> json" where
  "answer_item nm c = JObject [(''fileName'', JString nm), (''category'', c)]"

section \<open>File records\<close>

text \<open>
  \<open>FileMetadata\<close> of \<open>types.ts\<close>. The handle is opaque in the program; here it is the
  place of the entry in the tree: the names of the directories from the root, then the
  entry's own name. The recursive scan adds the field \<open>path\<close>.
\<close>

datatype handle_kind = File | Directory

record FileMetadata =
  name :: string
  kind :: handle_kind
  size' :: nat
  lastModified :: int
  extension :: string
  suggestedCategory :: val
  handle :: "string list"

record PathedFile = FileMetadata +
  path :: string

section \<open>The directory walker\<close>

text \<open>
  What iterating a directory handle yields. A file entry carries what \<open>getFile()\<close>
  gives (size and modification time), or \<open>None\<close> when \<open>getFile()\<close> rejects;
  \<open>IterationFailure\<close> is the point where the iterator itself rejects.
\<close>

datatype entry =
    FileEntry string "(nat \<times> int) option"
  | DirectoryEntry string "entry list"
  | IterationFailure

text \<open>\<open>currentPath ? `${currentPath}/${entry.name}` : entry.name\<close>.\<close>

definition child_path :: "string \<Rightarrow> string \<Rightarrow> string" where
  "child_path currentPath nm = (if currentPath \<noteq> '''' then currentPath @ ''/'' @ nm else nm)"

text \<open>
  The inner function \<open>scan\<close> of \<open>performScan\<close>: \<open>excludedFolders\<close>, the directory
  (its place and its entries), \<open>currentPath\<close>, and the array \<open>foundFiles\<close> it pushes to.
  A rejected read leaves the whole scan.
\<close>

fun scan :: "string set \<Rightarrow> string list \<Rightarrow> string \<Rightarrow> entry list \<Rightarrow> PathedFile list
               \<Rightarrow> exn + PathedFile list" where
  "scan excludedFolders loc currentPath [] foundFiles = Inr foundFiles"
| "scan excludedFolders loc currentPath (IterationFailure # es) foundFiles = Inl ReadError"
| "scan excludedFolders loc currentPath (FileEntry nm meta # es) foundFiles =
     (if nm \<in> excludedFolders then scan excludedFolders loc currentPath es foundFiles
      else (case meta of
              None \<Rightarrow> Inl ReadError
            | Some (sz, lm) \<Rightarrow>
                scan excludedFolders loc currentPath es
                  (foundFiles @
                    [\<lparr>name = nm, kind = File, size' = sz, lastModified = lm,
                      extension = extension_of nm, suggestedCategory = js UNKNOWN,
                      handle = loc @ [nm], path = child_path currentPath nm\<rparr>])))"
| "scan excludedFolders loc currentPath (DirectoryEntry nm sub # es) foundFiles =
     (if nm \<in> excludedFolders then scan excludedFolders loc currentPath es foundFiles
      else (case scan excludedFolders (loc @ [nm]) (child_path currentPath nm) sub foundFiles of
              Inl e \<Rightarrow> Inl e
            | Inr foundFiles' \<Rightarrow> scan excludedFolders loc currentPath es foundFiles'))"

text \<open>
  The files reachable from a directory by a traversal of unrestricted depth, each by
  its place (the words of the spec; no exclusion, no failure).
\<close>

fun reachable_files :: "string list \<Rightarrow> entry list \<Rightarrow> string list list" where
  "reachable_files loc [] = []"
| "reachable_files loc (IterationFailure # es) = reachable_files loc es"
| "reachable_files loc (FileEntry nm meta # es) = (loc @ [nm]) # reachable_files loc es"
| "reachable_files loc (DirectoryEntry nm sub # es) =
     reachable_files (loc @ [nm]) sub @ reachable_files loc es"

text \<open>Every name of the tree; a name of a real file system holds no \<open>/\<close>.\<close>

fun entry_names :: "entry list \<Rightarrow> string list" where
  "entry_names [] = []"
| "entry_names (IterationFailure # es) = entry_names es"
| "entry_names (FileEntry nm meta # es) = nm # entry_names es"
| "entry_names (DirectoryEntry nm sub # es) = nm # entry_names sub @ entry_names es"

text \<open>
  A description of the directory tree, not code: no read that the scan reaches rejects.
  An excluded entry is never read.
\<close>

fun readable :: "string set \<Rightarrow> entry list \<Rightarrow> bool" where
  "readable excludedFolders [] = True"
| "readable excludedFolders (IterationFailure # es) = False"
| "readable excludedFolders (FileEntry nm meta # es) =
     ((nm \<in> excludedFolders \<or> meta \<noteq> None) \<and> readable excludedFolders es)"
| "readable excludedFolders (DirectoryEntry nm sub # es) =
     ((nm \<in> excludedFolders \<or> readable excludedFolders sub) \<and> readable excludedFolders es)"

text \<open>
  The segments of a relative path as the scan builds it; the root (\<open>''''\<close>) has none.
\<close>

definition segments :: "string \<Rightarrow> string list" where
  "segments p = (if p = '''' then [] else split CHR ''/'' p)"

text \<open>
  The tree of the spec's example: \<open>src/a.ts\<close>, \<open>src/node_modules/b.js\<close> and
  \<open>readme.md\<close> under the root.
\<close>

definition example_tree :: "entry list" where
  "example_tree =
     [DirectoryEntry ''src''
        [FileEntry ''a.ts'' (Some (10, 0)),
         DirectoryEntry ''node_modules'' [FileEntry ''b.js'' (Some (20, 0))]],
      FileEntry ''readme.md'' (Some (5, 0))]"

section \<open>The duplicate detector\<close>

record DuplicateGroup =
  id' :: string
  files :: "PathedFile list"
  resolved :: bool

text \<open>
  \<open>sizeGroups\<close> is a JavaScript object keyed by size: here its own properties in the
  order they were created. Writing an existing key keeps its position.
\<close>

definition obj_set :: "nat \<Rightarrow> 'v \<Rightarrow> (nat \<times> 'v) list \<Rightarrow> (nat \<times> 'v) list" where
  "obj_set k v obj =
     (if k \<in> fst ` set obj then map (\<lambda>(k', v'). if k' = k then (k', v) else (k', v')) obj
      else obj @ [(k, v)])"

text \<open>
  \<open>if (!sizeGroups[f.size]) sizeGroups[f.size] = []; sizeGroups[f.size].push(f)\<close>
  (an array is always truthy).
\<close>

definition group_by_size :: "PathedFile \<Rightarrow> (nat \<times> PathedFile list) list \<Rightarrow> (nat \<times> PathedFile list) list" where
  "group_by_size f sizeGroups =
     (let g = (if map_of sizeGroups (size' f) = None then obj_set (size' f) [] sizeGroups
               else sizeGroups)
      in (case map_of g (size' f) of
            None \<Rightarrow> g
          | Some members \<Rightarrow> obj_set (size' f) (members @ [f]) g))"

text \<open>
  \<open>Object.entries\<close>: the keys that are array indices (below \<open>2^32 - 1\<close>) in ascending
  order, then the other keys in creation order.
\<close>

definition is_array_index :: "nat \<Rightarrow> bool" where
  "is_array_index k \<longleftrightarrow> int k < 4294967295"

definition Object_entries :: "(nat \<times> 'v) list \<Rightarrow> (nat \<times> 'v) list" where
  "Object_entries obj =
     sort_key fst (filter (\<lambda>kv. is_array_index (fst kv)) obj)
       @ filter (\<lambda>kv. \<not> is_array_index (fst kv)) obj"

definition size_groups :: "PathedFile list \<Rightarrow> (nat \<times> PathedFile list) list" where
  "size_groups foundFiles = foldl (\<lambda>sizeGroups f. group_by_size f sizeGroups) [] foundFiles"

definition duplicate_groups :: "PathedFile list \<Rightarrow> DuplicateGroup list" where
  "duplicate_groups foundFiles =
     map (\<lambda>(sz, groupFiles). \<lparr>id' = ''size-'' @ show_nat sz, files = groupFiles, resolved = False\<rparr>)
       (filter (\<lambda>(sz, groupFiles). length groupFiles > 1) (Object_entries (size_groups foundFiles)))"

text \<open>The spec's example: six files of sizes 100, 100, 200, 300, 300, 300.\<close>

definition six_files :: "PathedFile list" where
  "six_files =
     map (\<lambda>(nm, sz). \<lparr>name = nm, kind = File, size' = sz, lastModified = 0, extension = ''bin'',
                suggestedCategory = js UNKNOWN, handle = [nm], path = nm\<rparr>)
       [(''f1.bin'', 100), (''f2.bin'', 100), (''f3.bin'', 200),
        (''f4.bin'', 300), (''f5.bin'', 300), (''f6.bin'', 300)]"

section \<open>The scans\<close>

text \<open>
  \<open>scanDirectory\<close> of \<open>src/App.tsx\<close> (both variants have the same loop): the entries
  directly under the picked directory, in iteration order. A directory entry is passed
  over: nothing below it is read. A rejected read leaves the loop.
\<close>

fun list_files :: "entry list \<Rightarrow> FileMetadata list \<Rightarrow> exn + FileMetadata list" where
  "list_files [] foundFiles = Inr foundFiles"
| "list_files (IterationFailure # es) foundFiles = Inl ReadError"
| "list_files (DirectoryEntry nm sub # es) foundFiles = list_files es foundFiles"
| "list_files (FileEntry nm meta # es) foundFiles =
     (case meta of
        None \<Rightarrow> Inl ReadError
      | Some (sz, lm) \<Rightarrow>
          list_files es
            (foundFiles @
              [\<lparr>name = nm, kind = File, size' = sz, lastModified = lm,
                extension = extension_of nm, suggestedCategory = js UNKNOWN,
                handle = [nm]\<rparr>]))"

text \<open>
  \<open>performScan\<close> (recursive walker, duplicate groups, categories, selection).
  \<open>if (aiCategories[f.name]) f.suggestedCategory = aiCategories[f.name]\<close>.
\<close>

definition assign_ai :: "object \<Rightarrow> PathedFile \<Rightarrow> PathedFile" where
  "assign_ai aiCategories f =
     (case read_property aiCategories (name f) of
        None \<Rightarrow> f
      | Some c \<Rightarrow> if truthy c then f\<lparr>suggestedCategory := c\<rparr> else f)"

text \<open>
  The outcome of \<open>performScan\<close>. Both failures end in the same \<open>catch\<close>, which shows
  \<open>File system traversal failed.\<close>; when the categorization rejects, the duplicate groups
  have been stored already. The members of a group are the very objects of
  \<open>foundFiles\<close>, so they carry the categories assigned afterwards.
\<close>

datatype scan_outcome =
    TraversalFailed
  | CategorizationFailed "DuplicateGroup list"
  | Scanned "PathedFile list" "DuplicateGroup list" "string set"
  | ScanUnmodelled

text \<open>
  \<open>customRules\<close> is the component's state, filled from the saved rules
  (\<open>filezen_rules\<close>) when the application starts: a list of pairs of an extension and a
  category. \<open>performScan\<close> can see it; its body never reads it.
\<close>

definition performScan ::
    "(string \<times> val) list \<Rightarrow> string set \<Rightarrow> oracle_run \<Rightarrow> entry list \<Rightarrow> scan_outcome" where
  "performScan customRules excludedFolders run rootEntries =
     (case scan excludedFolders [] '''' rootEntries [] of
        Inl e \<Rightarrow> TraversalFailed
      | Inr foundFiles \<Rightarrow>
          (let groups = duplicate_groups foundFiles in
           if foundFiles \<noteq> [] then
             (case categorizeFiles run (map name foundFiles) of
                Thrown e \<Rightarrow> CategorizationFailed groups
              | Unmodelled \<Rightarrow> ScanUnmodelled
              | Returned aiCategories \<Rightarrow>
                  (let fs = map (assign_ai aiCategories) foundFiles in
                   Scanned fs
                     (map (\<lambda>g. g\<lparr>files := map (assign_ai aiCategories) (files g)\<rparr>) groups)
                     (set (map name (filter (\<lambda>f. suggestedCategory f \<noteq> js UNKNOWN) fs)))))
           else Scanned [] groups {}))"

text \<open>
  The classifier in the words of the spec: the custom rule for the file's extension,
  otherwise the oracle's answer for the file's name, otherwise the static table,
  otherwise Unknown.
\<close>

definition classifier_precedence ::
    "(string \<rightharpoonup> val) \<Rightarrow> (string \<rightharpoonup> val) \<Rightarrow> (string \<rightharpoonup> val) \<Rightarrow> string \<Rightarrow> string \<Rightarrow> val" where
  "classifier_precedence rules answers table ext nm =
     (case rules ext of
        Some c \<Rightarrow> c
      | None \<Rightarrow>
          (case answers nm of
             Some c \<Rightarrow> c
           | None \<Rightarrow>
               (case table ext of
                  Some c \<Rightarrow> c
                | None \<Rightarrow> js UNKNOWN)))"

section \<open>Progress percentages\<close>

text \<open>
  \<open>Math.round((moved / targets.length) * 100)\<close> is computed on IEEE 754 doubles: the
  quotient and the product are each rounded to the nearest double (ties to the even
  significand); \<open>Math.round\<close> then rounds to the nearest integer, halves upwards. The
  rounding to a double is modelled for the range the percentages live in (53-bit
  significand, no overflow and no subnormal numbers).
\<close>

definition round_half_even :: "real \<Rightarrow> int" where
  "round_half_even r =
     (let f = \<lfloor>r\<rfloor>; d = r - of_int f
      in if d < 1/2 then f else if 1/2 < d then f + 1 else if even f then f else f + 1)"

definition to_double :: "real \<Rightarrow> real" where
  "to_double x =
     (if x = 0 then 0
      else (let e = \<lfloor>log 2 \<bar>x\<bar>\<rfloor>; u = 2 powr (of_int e - 52)
            in sgn x * of_int (round_half_even (\<bar>x\<bar> / u)) * u))"

definition Math_round :: "real \<Rightarrow> int" where
  "Math_round x = \<lfloor>x + 1/2\<rfloor>"

definition progress_value :: "nat \<Rightarrow> nat \<Rightarrow> int" where
  "progress_value moved len =
     Math_round (to_double (to_double (real moved / real len) * 100))"

text \<open>
  The percentage in the words of the spec: \<open>round(completedCount / totalCount \<times> 100)\<close>
  on the real numbers.
\<close>

definition spec_progress :: "nat \<Rightarrow> nat \<Rightarrow> int" where
  "spec_progress completedCount totalCount =
     round (real completedCount / real totalCount * 100)"

section \<open>The move planner and the executor\<close>

text \<open>
  \<open>targets\<close> of \<open>handleOrganize\<close>:
  \<open>files.filter(f => selectedFiles.has(f.name) && f.suggestedCategory !== FileCategory.UNKNOWN)\<close>.
\<close>

definition targets :: "PathedFile list \<Rightarrow> string set \<Rightarrow> PathedFile list" where
  "targets fs selectedFiles =
     filter (\<lambda>f. name f \<in> selectedFiles \<and> suggestedCategory f \<noteq> js UNKNOWN) fs"

text \<open>
  \<open>toMove\<close> of \<open>executeExport\<close>, the export of the second variant in
  \<open>src/App.tsx\<close>:
  \<open>files.filter(f => selectedFiles.has(f.name))\<close>.
\<close>

definition toMove :: "FileMetadata list \<Rightarrow> string set \<Rightarrow> FileMetadata list" where
  "toMove fs selectedFiles = filter (\<lambda>f. name f \<in> selectedFiles) fs"

text \<open>
  The calls to the File System Access API. A handle is named by its place under the
  root handle. Whether a call rejects is decided by the file system, not by the
  program: the executor is given, for each operation of the batch (numbered from 0) and
  each call, whether that call rejects.
\<close>

datatype fs_call =
    GetDirectoryHandle "string list" string bool
  | GetFile "string list"
  | GetFileHandle "string list" string bool
  | CreateWritable "string list"
  | Write "string list" "string list"
  | Close "string list"
  | RemoveEntry "string list" string

datatype log_type = INFO | SUCCESS | WARNING | ERROR

text \<open>What the executor does to the outside, in order.\<close>

datatype event =
    Call nat fs_call bool
  | SetProgress int
  | SetOrganizing bool
  | Log log_type string
  | Rescan

text \<open>
  \<open>for (const part of pathParts) if (part) parent = await parent.getDirectoryHandle(part)\<close>.
\<close>

fun walk_calls :: "string list \<Rightarrow> string list \<Rightarrow> fs_call list" where
  "walk_calls parent [] = []"
| "walk_calls parent (part # parts) =
     (if part \<noteq> '''' then GetDirectoryHandle parent part False # walk_calls (parent @ [part]) parts
      else walk_calls parent parts)"

text \<open>The body of the loop of \<open>handleOrganize\<close> for one file, call by call.\<close>

definition move_calls :: "PathedFile \<Rightarrow> fs_call list" where
  "move_calls f =
     (let dir = ToString (suggestedCategory f);
          newFile = [dir, name f];
          pathParts = butlast (split CHR ''/'' (path f))
      in [GetDirectoryHandle [] dir True,
          GetFile (handle f),
          GetFileHandle [dir] (name f) True,
          CreateWritable newFile,
          Write newFile (handle f),
          Close newFile]
         @ walk_calls [] pathParts
         @ [RemoveEntry (filter (\<lambda>part. part \<noteq> '''') pathParts) (name f)])"

text \<open>Awaiting the calls one after the other: the first that rejects ends the sequence.\<close>

fun attempt :: "(fs_call \<Rightarrow> bool) \<Rightarrow> fs_call list \<Rightarrow> (fs_call \<times> bool) list" where
  "attempt rejects [] = []"
| "attempt rejects (c # cs) =
     (if rejects c then [(c, True)] else (c, False) # attempt rejects cs)"

text \<open>
  The \<open>for\<close> loop inside the \<open>try\<close>: the events, the counter \<open>moved\<close>, and whether the
  loop ran to its end (\<open>False\<close>: an exception left it). The operation in hand is the
  one numbered \<open>moved\<close>.
\<close>

fun organize_loop :: "(nat \<Rightarrow> fs_call \<Rightarrow> bool) \<Rightarrow> nat \<Rightarrow> PathedFile list \<Rightarrow> nat
                        \<Rightarrow> event list \<times> nat \<times> bool" where
  "organize_loop rejects len [] moved = ([], moved, True)"
| "organize_loop rejects len (f # rest) moved =
     (let calls = attempt (rejects moved) (move_calls f);
          evs = map (\<lambda>(c, b). Call moved c b) calls
      in if list_ex snd calls then (evs, moved, False)
         else (case organize_loop rejects len rest (Suc moved) of
                 (evs', moved', done) \<Rightarrow>
                   (evs @ [SetProgress (progress_value (Suc moved) len)] @ evs', moved', done)))"

text \<open>
  \<open>handleOrganize\<close>. Without a source handle nothing happens (\<open>None\<close>). The \<open>catch\<close>
  logs one line; the \<open>finally\<close> clears the flag.
\<close>

definition handleOrganize ::
    "string option \<Rightarrow> (nat \<Rightarrow> fs_call \<Rightarrow> bool) \<Rightarrow> PathedFile list \<Rightarrow> string set
       \<Rightarrow> (event list \<times> nat) option" where
  "handleOrganize sourceHandle rejects fs selectedFiles =
     (case sourceHandle of
        None \<Rightarrow> None
      | Some h \<Rightarrow>
          (let ts = targets fs selectedFiles in
           case organize_loop rejects (length ts) ts 0 of
             (evs, moved, done) \<Rightarrow>
               Some ([Log INFO ''Executing batch organization...'', SetOrganizing True, SetProgress 0]
                     @ evs
                     @ (if done
                        then [Log SUCCESS (''Organized '' @ show_nat moved @ '' files successfully.''),
                              Rescan]
                        else [Log ERROR ''Organization partially failed. Check permissions.''])
                     @ [SetOrganizing False],
                     moved)))"

text \<open>
  Reading a run. An operation is attempted when its first call (getting or creating the
  category directory) is issued; it is completed when its \<open>removeEntry\<close> has returned.
\<close>

fun start_index :: "event \<Rightarrow> nat option" where
  "start_index (Call i (GetDirectoryHandle p d True) b) = Some i"
| "start_index e = None"

fun removal_index :: "event \<Rightarrow> nat option" where
  "removal_index (Call i (RemoveEntry p n) False) = Some i"
| "removal_index e = None"

fun progress_of :: "event \<Rightarrow> int option" where
  "progress_of (SetProgress p) = Some p"
| "progress_of e = None"

fun log_of :: "event \<Rightarrow> (log_type \<times> string) option" where
  "log_of (Log t m) = Some (t, m)"
| "log_of e = None"

definition attempted :: "event list \<Rightarrow> nat list" where
  "attempted evs = List.map_filter start_index evs"

definition completed :: "event list \<Rightarrow> nat list" where
  "completed evs = List.map_filter removal_index evs"

definition progress_values :: "event list \<Rightarrow> int list" where
  "progress_values evs = List.map_filter progress_of evs"

definition log_entries :: "event list \<Rightarrow> (log_type \<times> string) list" where
  "log_entries evs = List.map_filter log_of evs"

text \<open>The events of the loop when no call rejects, from operation \<open>moved\<close> on.\<close>

fun done_events :: "nat \<Rightarrow> nat \<Rightarrow> PathedFile list \<Rightarrow> event list" where
  "done_events len moved [] = []"
| "done_events len moved (f # rest) =
     map (\<lambda>c. Call moved c False) (move_calls f)
       @ [SetProgress (progress_value (Suc moved) len)]
       @ done_events len (Suc moved) rest"

text \<open>\<open>a\<close> occurs before \<open>b\<close> in the run.\<close>

definition before :: "'a \<Rightarrow> 'a \<Rightarrow> 'a list \<Rightarrow> bool" where
  "before a b evs \<longleftrightarrow> (\<exists>xs ys zs. evs = xs @ a # ys @ b # zs)"

text \<open>The destination of a move: the file of the same name in the category directory.\<close>

definition newFile_of :: "PathedFile \<Rightarrow> string list" where
  "newFile_of f = [ToString (suggestedCategory f), name f]"

text \<open>
  The batch of the spec's example: five planned moves, and a file system on which the
  write of the third one rejects.
\<close>

definition five_files :: "PathedFile list" where
  "five_files =
     map (\<lambda>nm. \<lparr>name = nm, kind = File, size' = 1, lastModified = 0, extension = ''pdf'',
                suggestedCategory = js DOCUMENTS, handle = [nm], path = nm\<rparr>)
       [''a.pdf'', ''b.pdf'', ''c.pdf'', ''d.pdf'', ''e.pdf'']"

definition third_write_fails :: "nat \<Rightarrow> fs_call \<Rightarrow> bool" where
  "third_write_fails i c = (i = 2 \<and> (case c of Write newFile fileData \<Rightarrow> True | _ \<Rightarrow> False))"

text \<open>A file system on which every call succeeds.\<close>

definition never_rejects :: "nat \<Rightarrow> fs_call \<Rightarrow> bool" where
  "never_rejects i c = False"

text \<open>
  A scanned list with a file the classifier left Unknown and a file of a subdirectory.
\<close>

definition mixed_files :: "PathedFile list" where
  "mixed_files =
     [\<lparr>name = ''a.pdf'', kind = File, size' = 1, lastModified = 0, extension = ''pdf'',
        suggestedCategory = js DOCUMENTS, handle = [''a.pdf''], path = ''a.pdf''\<rparr>,
      \<lparr>name = ''mystery.xyz'', kind = File, size' = 2, lastModified = 0, extension = ''xyz'',
        suggestedCategory = js UNKNOWN, handle = [''mystery.xyz''], path = ''mystery.xyz''\<rparr>,
      \<lparr>name = ''b.png'', kind = File, size' = 3, lastModified = 0, extension = ''png'',
        suggestedCategory = js IMAGES, handle = [''pics'', ''b.png''], path = ''pics/b.png''\<rparr>]"

text \<open>
  \<open>organizeFiles\<close>, the executor of the first variant in \<open>src/App.tsx\<close>. It first creates
  the directory of every category that occurs (\<open>Array.from(new Set(...))\<close>, Unknown left
  out), then moves the files that are not Unknown; every file lies directly in the
  picked directory. A \<open>Set\<close> keeps the first occurrence of a value; two parsed arrays or
  objects are never the same value. The file system is asked about a call together with
  the number of files moved so far, which is 0 while the directories are created.
\<close>

fun is_reference :: "val \<Rightarrow> bool" where
  "is_reference (Json (JArray xs)) = True"
| "is_reference (Json (JObject kvs)) = True"
| "is_reference v = False"

fun Set_values :: "val list \<Rightarrow> val list \<Rightarrow> val list" where
  "Set_values seen [] = seen"
| "Set_values seen (v # vs) =
     (if is_reference v \<or> v \<notin> set seen then Set_values (seen @ [v]) vs
      else Set_values seen vs)"

definition categoriesToCreate :: "FileMetadata list \<Rightarrow> val list" where
  "categoriesToCreate fs = Set_values [] (map suggestedCategory fs)"

definition create_calls :: "FileMetadata list \<Rightarrow> fs_call list" where
  "create_calls fs =
     map (\<lambda>cat. GetDirectoryHandle [] (ToString cat) True)
       (filter (\<lambda>cat. cat \<noteq> js UNKNOWN) (categoriesToCreate fs))"

text \<open>The body of the second loop of \<open>organizeFiles\<close> for one file, call by call.\<close>

definition copy_calls :: "FileMetadata \<Rightarrow> fs_call list" where
  "copy_calls f =
     (let destFolder = [ToString (suggestedCategory f)];
          newFileHandle = destFolder @ [name f]
      in [GetFile (handle f),
          GetFileHandle destFolder (name f) True,
          CreateWritable newFileHandle,
          Write newFileHandle (handle f),
          Close newFileHandle,
          RemoveEntry [] (name f)])"

text \<open>
  The second loop: \<open>len\<close> is \<open>files.length\<close>, the length of the whole list, Unknown files
  included; the operation in hand is the one numbered \<open>count\<close>.
\<close>

fun organizeFiles_loop :: "(nat \<Rightarrow> fs_call \<Rightarrow> bool) \<Rightarrow> nat \<Rightarrow> FileMetadata list \<Rightarrow> nat
                             \<Rightarrow> event list \<times> nat \<times> bool" where
  "organizeFiles_loop rejects len [] count = ([], count, True)"
| "organizeFiles_loop rejects len (f # rest) count =
     (if suggestedCategory f = js UNKNOWN then organizeFiles_loop rejects len rest count
      else (let calls = attempt (rejects count) (copy_calls f);
                evs = map (\<lambda>(c, b). Call count c b) calls
            in if list_ex snd calls then (evs, count, False)
               else (case organizeFiles_loop rejects len rest (Suc count) of
                       (evs', count', done) \<Rightarrow>
                         (evs @ [SetProgress (progress_value (Suc count) len)] @ evs', count', done))))"

text \<open>
  How \<open>organizeFiles\<close> ends: the alert with the number of files organized, or the error
  \<open>Organization interrupted.\<close>
\<close>

datatype organize_result = Organized nat | Interrupted

definition organizeFiles ::
    "string option \<Rightarrow> (nat \<Rightarrow> fs_call \<Rightarrow> bool) \<Rightarrow> FileMetadata list
       \<Rightarrow> (event list \<times> organize_result) option" where
  "organizeFiles directoryHandle rejects fs =
     (case directoryHandle of
        None \<Rightarrow> None
      | Some h \<Rightarrow>
          (let created = attempt (rejects 0) (create_calls fs);
               start = [SetOrganizing True, SetProgress 0] @ map (\<lambda>(c, b). Call 0 c b) created
           in if list_ex snd created then Some (start @ [SetOrganizing False], Interrupted)
              else (case organizeFiles_loop rejects (length fs) fs 0 of
                      (evs, count, done) \<Rightarrow>
                        if done
                        then Some (start @ evs @ [SetOrganizing False, SetProgress 100],
                                   Organized count)
                        else Some (start @ evs @ [SetOrganizing False], Interrupted))))"

text \<open>
  The body of the loop of \<open>executeExport\<close> for one planned file, call by call. The
  export works on two root handles: the picked source directory and the destination
  picked for the export; a place is counted from the root named with the call.
\<close>

datatype root_handle = SourceHandle | DestinationHandle

definition export_calls :: "FileMetadata \<Rightarrow> (root_handle \<times> fs_call) list" where
  "export_calls f =
     (let category = ToString (suggestedCategory f);
          newFileHandle = [category, name f]
      in [(DestinationHandle, GetDirectoryHandle [] category True),
          (SourceHandle, GetFile (handle f)),
          (DestinationHandle, GetFileHandle [category] (name f) True),
          (DestinationHandle, CreateWritable newFileHandle),
          (DestinationHandle, Write newFileHandle (handle f)),
          (DestinationHandle, Close newFileHandle),
          (SourceHandle, RemoveEntry [] (name f))])"

text \<open>
  Two files of the second variant, one of them Unknown; in the example both are selected.
\<close>

definition two_files :: "FileMetadata list" where
  "two_files =
     [\<lparr>name = ''a.pdf'', kind = File, size' = 1, lastModified = 0, extension = ''pdf'',
        suggestedCategory = js DOCUMENTS, handle = [''a.pdf'']\<rparr>,
      \<lparr>name = ''mystery.xyz'', kind = File, size' = 2, lastModified = 0, extension = ''xyz'',
        suggestedCategory = js UNKNOWN, handle = [''mystery.xyz'']\<rparr>]"

text \<open>A list of the first variant: two files to move, two files left Unknown.\<close>

definition four_files :: "FileMetadata list" where
  "four_files =
     [\<lparr>name = ''a.pdf'', kind = File, size' = 1, lastModified = 0, extension = ''pdf'',
        suggestedCategory = js DOCUMENTS, handle = [''a.pdf'']\<rparr>,
      \<lparr>name = ''mystery.xyz'', kind = File, size' = 2, lastModified = 0, extension = ''xyz'',
        suggestedCategory = js UNKNOWN, handle = [''mystery.xyz'']\<rparr>,
      \<lparr>name = ''b.pdf'', kind = File, size' = 3, lastModified = 0, extension = ''pdf'',
        suggestedCategory = js DOCUMENTS, handle = [''b.pdf'']\<rparr>,
      \<lparr>name = ''other.abc'', kind = File, size' = 4, lastModified = 0, extension = ''abc'',
        suggestedCategory = js UNKNOWN, handle = [''other.abc'']\<rparr>]"

section \<open>Facts about strings\<close>

lemma split_not_Nil: "split c s \<noteq> []"
  by (induction s) (auto split: list.splits)

lemma split_append:
  "split c (a @ c # b) = split c a @ split c b"
proof (induction a)
  case Nil
  then show ?case by simp
next
  case (Cons x a)
  then show ?case
    using split_not_Nil [of c a] split_not_Nil [of c b]
    by (cases "split c a") auto
qed

lemma split_no_sep: "c \<notin> set s \<Longrightarrow> split c s = [s]"
  by (induction s) auto

lemma split_sep_two: "c \<in> set s \<Longrightarrow> \<exists>t u us. split c s = t # u # us"
proof (induction s)
  case Nil
  then show ?case by simp
next
  case (Cons x s)
  then show ?case
    using split_not_Nil [of c s]
    by (cases "split c s") (auto split: list.splits)
qed

lemma last_split: "last (split c s) = rev (takeWhile (\<lambda>x. x \<noteq> c) (rev s))"
proof (induction s)
  case Nil
  then show ?case by simp
next
  case (Cons x s)
  show ?case
  proof (cases "x = c")
    case True
    then show ?thesis
      using Cons split_not_Nil [of c s]
      by (simp add: takeWhile_append)
  next
    case False
    show ?thesis
    proof (cases "c \<in> set s")
      case True
      then obtain t u us where "split c s = t # u # us"
        using split_sep_two by blast
      then show ?thesis
        using False Cons True by (auto simp: takeWhile_append)
    next
      case False
      with \<open>x \<noteq> c\<close> show ?thesis
        by (simp add: split_no_sep takeWhile_append)
    qed
  qed
qed

text \<open>
  What the extension expression computes for every name: the lower-cased text after the
  last dot; with no dot in the name that is the whole name, lower-cased.
\<close>

lemma extension_of_eq:
  "extension_of nm = toLowerCase (rev (takeWhile (\<lambda>x. x \<noteq> CHR ''.'') (rev nm)))"
  by (simp add: extension_of_def pop_def split_not_Nil last_split toLowerCase_def Let_def)

lemma extension_of_no_dot:
  "CHR ''.'' \<notin> set nm \<Longrightarrow> extension_of nm = toLowerCase nm"
  by (simp add: extension_of_def pop_def split_no_sep toLowerCase_def Let_def)

lemma extension_of_dot:
  "CHR ''.'' \<notin> set e \<Longrightarrow> extension_of (b @ CHR ''.'' # e) = toLowerCase e"
proof -
  assume "CHR ''.'' \<notin> set e"
  then have "takeWhile (\<lambda>x. x \<noteq> CHR ''.'') (rev e @ CHR ''.'' # rev b) = rev e"
    by (subst takeWhile_append2) auto
  then show ?thesis by (simp add: extension_of_eq)
qed

section \<open>Facts about the categorization service\<close>

text \<open>
  The fallback never leaves the model: the only assignment to \<open>__proto__\<close> it can make
  stores \<open>Object.prototype\<close>, which is the prototype already.
\<close>

lemma fallback_category_proto: "fallback_category ''__proto__'' = ObjectPrototype"
  by code_simp

lemma write_fallback_category:
  "\<exists>mapping'. write_property mapping nm (fallback_category nm) = Some mapping'"
proof (cases "nm = ''__proto__''")
  case True
  then show ?thesis
    by (simp add: write_property_def fallback_category_proto)
next
  case False
  then show ?thesis
    by (simp add: write_property_def)
qed

lemma fallback_loop_Some: "\<exists>mapping'. fallback_loop fileNames mapping = Some mapping'"
proof (induction fileNames arbitrary: mapping)
  case Nil
  then show ?case by simp
next
  case (Cons nm rest)
  obtain mapping' where "write_property mapping nm (fallback_category nm) = Some mapping'"
    using write_fallback_category by blast
  with Cons [of mapping'] show ?case by simp
qed

lemma fallbackCategorization_Some: "\<exists>mapping. fallbackCategorization fileNames = Some mapping"
  unfolding fallbackCategorization_def by (rule fallback_loop_Some)

lemma categorizeFiles_fallback:
  "\<exists>mapping. categorizeFiles RequestRejected fileNames = Returned mapping
     \<and> categorizeFiles EmptyText fileNames = Returned mapping
     \<and> fallbackCategorization fileNames = Some mapping"
proof -
  obtain mapping where "fallbackCategorization fileNames = Some mapping"
    using fallbackCategorization_Some by blast
  then show ?thesis
    by (simp add: categorizeFiles_def returned_def)
qed

section \<open>Facts about the progress percentages\<close>

lemma round_half_even_of_int: "round_half_even (of_int n) = n"
  by (simp add: round_half_even_def)

lemma round_half_even_bounds:
  "\<lfloor>r\<rfloor> \<le> round_half_even r" "round_half_even r \<le> \<lfloor>r\<rfloor> + 1"
  by (simp_all add: round_half_even_def Let_def)

lemma round_half_even_mono:
  assumes "a \<le> b"
  shows "round_half_even a \<le> round_half_even b"
proof (cases "\<lfloor>a\<rfloor> = \<lfloor>b\<rfloor>")
  case True
  with assms show ?thesis
    by (auto simp: round_half_even_def Let_def)
next
  case False
  with assms have "\<lfloor>a\<rfloor> + 1 \<le> \<lfloor>b\<rfloor>"
    using floor_mono [of a b] by linarith
  then show ?thesis
    using round_half_even_bounds(2) [of a] round_half_even_bounds(1) [of b] by linarith
qed

text \<open>The binade of a positive number.\<close>

lemma binade:
  assumes "0 < x"
  shows "2 powr (of_int \<lfloor>log 2 x\<rfloor>) \<le> x" "x < 2 powr (of_int \<lfloor>log 2 x\<rfloor> + 1)"
proof -
  have x: "2 powr (log 2 x) = x"
    using assms by simp
  have "of_int \<lfloor>log 2 x\<rfloor> \<le> log 2 x"
    by simp
  then have "(2 :: real) powr (of_int \<lfloor>log 2 x\<rfloor>) \<le> 2 powr (log 2 x)"
    by (simp only: powr_le_cancel_iff [of 2] one_less_numeral_iff semiring_norm)
  with x show "2 powr (of_int \<lfloor>log 2 x\<rfloor>) \<le> x"
    by simp
  have "log 2 x < of_int \<lfloor>log 2 x\<rfloor> + 1"
    by linarith
  then have "(2 :: real) powr (log 2 x) < 2 powr (of_int \<lfloor>log 2 x\<rfloor> + 1)"
    by (simp only: powr_less_cancel_iff [of 2] one_less_numeral_iff semiring_norm)
  with x show "x < 2 powr (of_int \<lfloor>log 2 x\<rfloor> + 1)"
    by simp
qed

lemma to_double_pos:
  assumes "0 < x"
  shows "to_double x = of_int (round_half_even (x / 2 powr (of_int \<lfloor>log 2 x\<rfloor> - 52))) * 2 powr (of_int \<lfloor>log 2 x\<rfloor> - 52)"
  using assms by (simp add: to_double_def Let_def)

lemma to_double_range:
  assumes "0 < x"
  shows "2 powr (of_int \<lfloor>log 2 x\<rfloor>) \<le> to_double x" "to_double x \<le> 2 powr (of_int \<lfloor>log 2 x\<rfloor> + 1)"
proof -
  define e where "e = \<lfloor>log 2 x\<rfloor>"
  define u :: real where "u = 2 powr (of_int e - 52)"
  have u: "0 < u" by (simp add: u_def)
  have lo: "2 powr (of_int e) \<le> x" and hi: "x < 2 powr (of_int e + 1)"
    using binade [OF assms] unfolding e_def by blast+
  have e52: "2 powr (of_int e) = of_int (2 ^ 52) * u"
    by (simp add: u_def powr_diff powr_realpow [symmetric])
  have e53: "2 powr (of_int e + 1) = of_int (2 ^ 53) * u"
    by (simp add: u_def powr_diff powr_add powr_realpow [symmetric])
  have "of_int (2 ^ 52) \<le> x / u"
    using lo u e52 by (simp add: pos_le_divide_eq)
  then have "round_half_even (of_int (2 ^ 52)) \<le> round_half_even (x / u)"
    by (rule round_half_even_mono)
  then have a: "(2 ^ 52 :: int) \<le> round_half_even (x / u)"
    by (simp only: round_half_even_of_int)
  have "x / u \<le> of_int (2 ^ 53)"
    using hi u e53 by (simp add: pos_divide_le_eq)
  then have "round_half_even (x / u) \<le> round_half_even (of_int (2 ^ 53))"
    by (rule round_half_even_mono)
  then have b: "round_half_even (x / u) \<le> (2 ^ 53 :: int)"
    by (simp only: round_half_even_of_int)
  have td: "to_double x = of_int (round_half_even (x / u)) * u"
    using to_double_pos [OF assms] by (simp add: u_def e_def)
  have "of_int (2 ^ 52) * u \<le> of_int (round_half_even (x / u)) * u"
    using a u by (intro mult_right_mono) (simp_all del: of_int_power of_int_numeral)
  then show "2 powr (of_int \<lfloor>log 2 x\<rfloor>) \<le> to_double x"
    using e52 td by (simp add: e_def)
  have "of_int (round_half_even (x / u)) * u \<le> of_int (2 ^ 53) * u"
    using b u by (intro mult_right_mono) (simp_all del: of_int_power of_int_numeral)
  then show "to_double x \<le> 2 powr (of_int \<lfloor>log 2 x\<rfloor> + 1)"
    using e53 td by (simp add: e_def)
qed

lemma to_double_nonneg: "0 \<le> x \<Longrightarrow> 0 \<le> to_double x"
proof (cases "x = 0")
  case True
  then show ?thesis by (simp add: to_double_def)
next
  case False
  assume "0 \<le> x"
  with False have "0 < x" by simp
  from to_double_range(1) [OF this] show ?thesis
    by (meson powr_ge_zero order_trans)
qed

lemma to_double_mono:
  assumes "0 \<le> x" "x \<le> y"
  shows "to_double x \<le> to_double y"
proof (cases "x = 0")
  case True
  then show ?thesis
    using assms to_double_nonneg [of y] by (simp add: to_double_def)
next
  case False
  with assms have x: "0 < x" and y: "0 < y" by simp_all
  have le: "\<lfloor>log 2 x\<rfloor> \<le> \<lfloor>log 2 y\<rfloor>"
    using assms x by (intro floor_mono) simp
  show ?thesis
  proof (cases "\<lfloor>log 2 x\<rfloor> = \<lfloor>log 2 y\<rfloor>")
    case True
    define u :: real where "u = 2 powr (of_int \<lfloor>log 2 y\<rfloor> - 52)"
    have u: "0 < u" by (simp add: u_def)
    have "x / u \<le> y / u"
      using assms u by (simp add: divide_right_mono)
    then have "round_half_even (x / u) \<le> round_half_even (y / u)"
      by (rule round_half_even_mono)
    then have "of_int (round_half_even (x / u)) * u \<le> of_int (round_half_even (y / u)) * u"
      using u by (intro mult_right_mono) simp_all
    then show ?thesis
      using to_double_pos [OF x] to_double_pos [OF y] True by (simp add: u_def)
  next
    case False
    with le have "of_int \<lfloor>log 2 x\<rfloor> + (1 :: real) \<le> of_int \<lfloor>log 2 y\<rfloor>"
      by linarith
    then have "(2 :: real) powr (of_int \<lfloor>log 2 x\<rfloor> + 1) \<le> 2 powr (of_int \<lfloor>log 2 y\<rfloor>)"
      by simp
    then show ?thesis
      using to_double_range(2) [OF x] to_double_range(1) [OF y] by linarith
  qed
qed

lemma to_double_exact:
  assumes "0 < x" and "x / 2 powr (of_int \<lfloor>log 2 x\<rfloor> - 52) = of_int n"
  shows "to_double x = x"
proof -
  have "to_double x = of_int n * 2 powr (of_int \<lfloor>log 2 x\<rfloor> - 52)"
    using to_double_pos [OF assms(1)] assms(2) by (simp add: round_half_even_of_int)
  also have "\<dots> = x"
    using assms(2) [symmetric] by simp
  finally show ?thesis .
qed

lemma to_double_1: "to_double 1 = 1"
proof (rule to_double_exact)
  show "(1 :: real) / 2 powr (of_int \<lfloor>log 2 1\<rfloor> - 52) = of_int (2 ^ 52)"
    by (simp add: powr_minus_divide powr_realpow [symmetric])
qed simp

lemma floor_log2_100: "\<lfloor>log 2 (100 :: real)\<rfloor> = 6"
proof -
  have "(6 :: real) \<le> log 2 100"
    by (subst le_log_iff) (simp_all add: powr_realpow [symmetric])
  moreover have "log 2 (100 :: real) < 7"
    by (subst log_less_iff) (simp_all add: powr_realpow [symmetric])
  ultimately show ?thesis
    by (simp add: floor_eq_iff)
qed

lemma to_double_100: "to_double 100 = 100"
proof (rule to_double_exact)
  show "(100 :: real) / 2 powr (of_int \<lfloor>log 2 100\<rfloor> - 52) = of_int (100 * 2 ^ 46)"
    by (simp add: floor_log2_100 powr_minus_divide powr_realpow [symmetric])
qed simp

lemma Math_round_mono: "x \<le> y \<Longrightarrow> Math_round x \<le> Math_round y"
  by (simp add: Math_round_def floor_mono)

lemma progress_value_mono:
  assumes "k \<le> k'"
  shows "progress_value k n \<le> progress_value k' n"
proof -
  have "real k / real n \<le> real k' / real n"
    using assms by (simp add: divide_right_mono)
  then have "to_double (real k / real n) \<le> to_double (real k' / real n)"
    by (intro to_double_mono) simp_all
  then have "to_double (real k / real n) * 100 \<le> to_double (real k' / real n) * 100"
    by simp
  then have "to_double (to_double (real k / real n) * 100) \<le> to_double (to_double (real k' / real n) * 100)"
    by (intro to_double_mono mult_nonneg_nonneg to_double_nonneg) simp_all
  then show ?thesis
    unfolding progress_value_def by (rule Math_round_mono)
qed

lemma progress_value_full: "0 < n \<Longrightarrow> progress_value n n = 100"
  by (simp add: progress_value_def to_double_1 to_double_100 Math_round_def)

lemma progress_value_nonneg: "0 \<le> progress_value k n"
proof -
  have "0 \<le> to_double (to_double (real k / real n) * 100)"
    by (intro to_double_nonneg mult_nonneg_nonneg) simp_all
  then show ?thesis
    by (simp add: progress_value_def Math_round_def)
qed

text \<open>One of two: the quotient and the product are exact, and the percentage is 50.\<close>

lemma floor_log2_half: "\<lfloor>log 2 (1 / 2 :: real)\<rfloor> = - 1"
proof -
  have "log 2 (1 / 2 :: real) = - 1"
    by (simp add: log_divide)
  then show ?thesis
    by (simp add: floor_eq_iff)
qed

lemma to_double_half: "to_double (1 / 2) = 1 / 2"
proof (rule to_double_exact)
  show "(1 / 2 :: real) / 2 powr (of_int \<lfloor>log 2 (1 / 2)\<rfloor> - 52) = of_int (2 ^ 52)"
    by (simp add: floor_log2_half powr_minus_divide powr_realpow [symmetric])
qed simp

lemma floor_log2_50: "\<lfloor>log 2 (50 :: real)\<rfloor> = 5"
proof -
  have "(5 :: real) \<le> log 2 50"
    by (subst le_log_iff) (simp_all add: powr_realpow [symmetric])
  moreover have "log 2 (50 :: real) < 6"
    by (subst log_less_iff) (simp_all add: powr_realpow [symmetric])
  ultimately show ?thesis
    by (simp add: floor_eq_iff)
qed

lemma to_double_50: "to_double 50 = 50"
proof (rule to_double_exact)
  show "(50 :: real) / 2 powr (of_int \<lfloor>log 2 50\<rfloor> - 52) = of_int (50 * 2 ^ 47)"
    by (simp add: floor_log2_50 powr_minus_divide powr_realpow [symmetric])
qed simp

lemma progress_value_half: "progress_value (Suc 0) 2 = 50"
  by (simp add: progress_value_def to_double_half to_double_50 Math_round_def)

text \<open>One and two of four: 25 and 50.\<close>

lemma floor_log2_quarter: "\<lfloor>log 2 (1 / 4 :: real)\<rfloor> = - 2"
proof -
  have "(- 2 :: real) \<le> log 2 (1 / 4)"
    by (subst le_log_iff) (simp_all add: powr_minus_divide powr_realpow [symmetric])
  moreover have "log 2 (1 / 4 :: real) < - 1"
    by (subst log_less_iff) (simp_all add: powr_minus_divide)
  ultimately show ?thesis
    by (simp add: floor_eq_iff)
qed

lemma to_double_quarter: "to_double (1 / 4) = 1 / 4"
proof (rule to_double_exact)
  show "(1 / 4 :: real) / 2 powr (of_int \<lfloor>log 2 (1 / 4)\<rfloor> - 52) = of_int (2 ^ 52)"
    by (simp add: floor_log2_quarter powr_minus_divide powr_realpow [symmetric])
qed simp

lemma floor_log2_25: "\<lfloor>log 2 (25 :: real)\<rfloor> = 4"
proof -
  have "(4 :: real) \<le> log 2 25"
    by (subst le_log_iff) (simp_all add: powr_realpow [symmetric])
  moreover have "log 2 (25 :: real) < 5"
    by (subst log_less_iff) (simp_all add: powr_realpow [symmetric])
  ultimately show ?thesis
    by (simp add: floor_eq_iff)
qed

lemma to_double_25: "to_double 25 = 25"
proof (rule to_double_exact)
  show "(25 :: real) / 2 powr (of_int \<lfloor>log 2 25\<rfloor> - 52) = of_int (25 * 2 ^ 48)"
    by (simp add: floor_log2_25 powr_minus_divide powr_realpow [symmetric])
qed simp

lemma progress_value_quarter: "progress_value (Suc 0) 4 = 25"
  by (simp add: progress_value_def to_double_quarter to_double_25 Math_round_def)

lemma progress_value_two_of_four: "progress_value (Suc (Suc 0)) 4 = 50"
  by (simp add: progress_value_def to_double_half to_double_50 Math_round_def)

section \<open>Facts about the executor\<close>

subsection \<open>Sequences of calls\<close>

lemma attempt_member: "(c, b) \<in> set (attempt r cs) \<Longrightarrow> c \<in> set cs \<and> b = r c"
  by (induction cs) (auto split: if_splits)

lemma attempt_no_reject: "(\<forall>c \<in> set cs. \<not> r c) \<Longrightarrow> attempt r cs = map (\<lambda>c. (c, False)) cs"
  by (induction cs) auto

lemma attempt_rejected_iff: "list_ex snd (attempt r cs) \<longleftrightarrow> (\<exists>c \<in> set cs. r c)"
  by (induction cs) auto

lemma attempt_reaches_last:
  "(c, b) \<in> set (attempt r (xs @ [c])) \<Longrightarrow> c \<notin> set xs \<Longrightarrow> \<forall>x \<in> set xs. \<not> r x"
proof (induction xs)
  case Nil
  then show ?case by simp
next
  case (Cons x xs)
  then show ?case
    by (auto split: if_splits)
qed

lemma attempt_Cons_nonempty: "attempt r (c # cs) \<noteq> []"
  by simp

lemma map_filter_append:
  "List.map_filter f (xs @ ys) = List.map_filter f xs @ List.map_filter f ys"
  by (simp add: List.map_filter_def)

lemma map_filter_empty_iff: "List.map_filter f xs = [] \<longleftrightarrow> (\<forall>x \<in> set xs. f x = None)"
  by (induction xs) (auto simp: List.map_filter_simps split: option.splits)

subsection \<open>The calls of one move\<close>

lemma walk_calls_lookup:
  "c \<in> set (walk_calls parent parts) \<Longrightarrow> \<exists>p d. c = GetDirectoryHandle p d False"
  by (induction parts arbitrary: parent) (auto split: if_splits)

lemma move_calls_shape:
  "\<exists>w. move_calls f =
      GetDirectoryHandle [] (ToString (suggestedCategory f)) True
      # GetFile (handle f)
      # GetFileHandle [ToString (suggestedCategory f)] (name f) True
      # CreateWritable (newFile_of f)
      # Write (newFile_of f) (handle f)
      # Close (newFile_of f)
      # w @ [RemoveEntry (filter (\<lambda>part. part \<noteq> '''') (butlast (split CHR ''/'' (path f)))) (name f)]
    \<and> (\<forall>c \<in> set w. \<exists>p d. c = GetDirectoryHandle p d False)"
  by (auto simp: move_calls_def Let_def newFile_of_def dest: walk_calls_lookup)

lemma move_calls_not_Nil: "move_calls f \<noteq> []"
  using move_calls_shape [of f] by auto

lemma start_index_walk:
  "\<forall>c \<in> set w. \<exists>p d. c = GetDirectoryHandle p d False \<Longrightarrow>
     List.map_filter start_index (map (\<lambda>(c, b). Call i c b) (attempt r w)) = []"
  by (auto simp: map_filter_empty_iff dest!: attempt_member)

lemma start_index_attempt:
  "List.map_filter start_index (map (\<lambda>(c, b). Call i c b) (attempt r (move_calls f))) = [i]"
proof -
  obtain w where mc: "move_calls f =
      GetDirectoryHandle [] (ToString (suggestedCategory f)) True
      # GetFile (handle f)
      # GetFileHandle [ToString (suggestedCategory f)] (name f) True
      # CreateWritable (newFile_of f)
      # Write (newFile_of f) (handle f)
      # Close (newFile_of f)
      # w @ [RemoveEntry (filter (\<lambda>part. part \<noteq> '''') (butlast (split CHR ''/'' (path f)))) (name f)]"
    and w: "\<forall>c \<in> set w. \<exists>p d. c = GetDirectoryHandle p d False"
    using move_calls_shape [of f] by blast
  let ?rm = "RemoveEntry (filter (\<lambda>part. part \<noteq> '''') (butlast (split CHR ''/'' (path f)))) (name f)"
  have "start_index (Call i c b) = None" if "(c, b) \<in> set (attempt r (w @ [?rm]))" for c b
  proof -
    from that have "c \<in> set w \<or> c = ?rm"
      using attempt_member by fastforce
    then show ?thesis
      using w by auto
  qed
  then have "\<forall>x \<in> set (attempt r (w @ [?rm])). start_index (Call i (fst x) (snd x)) = None"
    by auto
  then have "List.map_filter start_index (map (\<lambda>(c, b). Call i c b) (attempt r (w @ [?rm]))) = []"
    by (auto simp: map_filter_empty_iff)
  then show ?thesis
    unfolding mc by (simp add: List.map_filter_simps)
qed

lemma removal_index_attempt:
  "List.map_filter removal_index (map (\<lambda>(c, b). Call i c b) (attempt r (move_calls f)))
     = (if \<exists>c \<in> set (move_calls f). r c then [] else [i])"
proof -
  obtain w where mc: "move_calls f =
      GetDirectoryHandle [] (ToString (suggestedCategory f)) True
      # GetFile (handle f)
      # GetFileHandle [ToString (suggestedCategory f)] (name f) True
      # CreateWritable (newFile_of f)
      # Write (newFile_of f) (handle f)
      # Close (newFile_of f)
      # w @ [RemoveEntry (filter (\<lambda>part. part \<noteq> '''') (butlast (split CHR ''/'' (path f)))) (name f)]"
    and w: "\<forall>c \<in> set w. \<exists>p d. c = GetDirectoryHandle p d False"
    using move_calls_shape [of f] by blast
  let ?rm = "RemoveEntry (filter (\<lambda>part. part \<noteq> '''') (butlast (split CHR ''/'' (path f)))) (name f)"
  let ?pre = "butlast (move_calls f)"
  have pre: "move_calls f = ?pre @ [?rm]" and notin: "?rm \<notin> set ?pre"
    using w unfolding mc by (auto simp: butlast_append)
  show ?thesis
  proof (cases "\<exists>c \<in> set (move_calls f). r c")
    case False
    then have "attempt r (move_calls f) = map (\<lambda>c. (c, False)) (move_calls f)"
      by (simp add: attempt_no_reject)
    moreover have "List.map_filter removal_index (map (\<lambda>c. Call i c False) w) = []"
      using w by (auto simp: map_filter_empty_iff)
    ultimately show ?thesis
      using False unfolding mc
      by (simp add: List.map_filter_simps map_filter_append comp_def)
  next
    case True
    have "\<forall>x \<in> set (attempt r (move_calls f)). removal_index (Call i (fst x) (snd x)) = None"
    proof
      fix x assume x: "x \<in> set (attempt r (move_calls f))"
      obtain c b where cb: "x = (c, b)" by (cases x)
      from x cb have mem: "c \<in> set (move_calls f)" and b: "b = r c"
        using attempt_member by fastforce+
      show "removal_index (Call i (fst x) (snd x)) = None"
      proof (rule ccontr)
        assume "removal_index (Call i (fst x) (snd x)) \<noteq> None"
        then obtain p n where c: "c = RemoveEntry p n" and bf: "b = False"
          using cb by (cases c; cases b) auto
        from mem c pre notin have crm: "c = ?rm"
          using w unfolding mc by auto
        from x cb crm have "(?rm, b) \<in> set (attempt r (?pre @ [?rm]))"
          using pre by simp
        from attempt_reaches_last [OF this notin] have "\<forall>x \<in> set ?pre. \<not> r x" .
        moreover have "\<not> r ?rm" using b bf crm by simp
        ultimately have "\<forall>c \<in> set (move_calls f). \<not> r c"
          using pre by (metis Un_iff empty_iff empty_set set_ConsD set_append)
        with True show False by blast
      qed
    qed
    then have "List.map_filter removal_index (map (\<lambda>(c, b). Call i c b) (attempt r (move_calls f))) = []"
      by (auto simp: map_filter_empty_iff)
    with True show ?thesis by simp
  qed
qed

lemma progress_of_calls:
  "List.map_filter progress_of (map (\<lambda>(c, b). Call i c b) xs) = []"
  "List.map_filter log_of (map (\<lambda>(c, b). Call i c b) xs) = []"
  by (auto simp: map_filter_empty_iff)

subsection \<open>The loop\<close>

lemma organize_loop_done:
  "(\<forall>j < length fs. \<forall>c \<in> set (move_calls (fs ! j)). \<not> rejects (m + j) c) \<Longrightarrow>
     organize_loop rejects len fs m = (done_events len m fs, m + length fs, True)"
proof (induction fs arbitrary: m)
  case Nil
  then show ?case by simp
next
  case (Cons f fs)
  have head: "\<forall>c \<in> set (move_calls f). \<not> rejects m c"
    using Cons.prems [rule_format, of 0] by simp
  have "\<forall>j < length fs. \<forall>c \<in> set (move_calls (fs ! j)). \<not> rejects (Suc m + j) c"
    using Cons.prems [rule_format, of "Suc j" for j] by simp
  from Cons.IH [OF this]
  have rest: "organize_loop rejects len fs (Suc m) = (done_events len (Suc m) fs, Suc m + length fs, True)" .
  have at: "attempt (rejects m) (move_calls f) = map (\<lambda>c. (c, False)) (move_calls f)"
    using head by (simp add: attempt_no_reject)
  show ?case
    using rest head
    by (simp add: at Let_def list_ex_iff comp_def)
qed

lemma organize_loop_fail:
  "k < length fs \<Longrightarrow> \<exists>c \<in> set (move_calls (fs ! k)). rejects (m + k) c \<Longrightarrow>
     (\<forall>j < k. \<forall>c \<in> set (move_calls (fs ! j)). \<not> rejects (m + j) c) \<Longrightarrow>
     organize_loop rejects len fs m =
       (done_events len m (take k fs)
          @ map (\<lambda>(c, b). Call (m + k) c b) (attempt (rejects (m + k)) (move_calls (fs ! k))),
        m + k, False)"
proof (induction fs arbitrary: m k)
  case Nil
  then show ?case by simp
next
  case (Cons f fs)
  show ?case
  proof (cases k)
    case 0
    with Cons.prems(2) have "list_ex snd (attempt (rejects m) (move_calls f))"
      by (simp add: attempt_rejected_iff)
    with 0 show ?thesis
      by (simp add: Let_def)
  next
    case (Suc k')
    have head: "\<forall>c \<in> set (move_calls f). \<not> rejects m c"
      using Cons.prems(3) [rule_format, of 0] Suc by simp
    have at: "attempt (rejects m) (move_calls f) = map (\<lambda>c. (c, False)) (move_calls f)"
      using head by (simp add: attempt_no_reject)
    have 1: "k' < length fs" using Cons.prems(1) Suc by simp
    have 2: "\<exists>c \<in> set (move_calls (fs ! k')). rejects (Suc m + k') c"
      using Cons.prems(2) Suc by simp
    have 3: "\<forall>j < k'. \<forall>c \<in> set (move_calls (fs ! j)). \<not> rejects (Suc m + j) c"
      using Cons.prems(3) [rule_format, of "Suc j" for j] Suc by simp
    from Cons.IH [OF 1 2 3] show ?thesis
      using head Suc
      by (simp add: at Let_def list_ex_iff comp_def)
  qed
qed

lemma organize_loop_segment:
  "organize_loop rejects len fs m = (evs, moved', fin) \<Longrightarrow> Call i c b \<in> set evs \<Longrightarrow>
     m \<le> i \<and> i < m + length fs \<and>
     (\<exists>xs ys. evs = xs @ map (\<lambda>(c, b). Call i c b) (attempt (rejects i) (move_calls (fs ! (i - m)))) @ ys)"
proof (induction fs arbitrary: m evs moved' fin)
  case Nil
  then show ?case by simp
next
  case (Cons f fs)
  let ?seg = "map (\<lambda>(c, b). Call m c b) (attempt (rejects m) (move_calls f))"
  show ?case
  proof (cases "list_ex snd (attempt (rejects m) (move_calls f))")
    case True
    with Cons.prems(1) have evs: "evs = ?seg"
      by (auto simp: Let_def)
    with Cons.prems(2) have im: "i = m" by auto
    have "evs = [] @ map (\<lambda>(c, b). Call i c b) (attempt (rejects i) (move_calls ((f # fs) ! (i - m)))) @ []"
      using evs im by simp
    then have "\<exists>xs ys. evs = xs @ map (\<lambda>(c, b). Call i c b) (attempt (rejects i) (move_calls ((f # fs) ! (i - m)))) @ ys"
      by blast
    then show ?thesis
      using im by simp
  next
    case False
    obtain evs' m' d' where rest: "organize_loop rejects len fs (Suc m) = (evs', m', d')"
      by (cases "organize_loop rejects len fs (Suc m)") auto
    with False Cons.prems(1) have evs: "evs = ?seg @ [SetProgress (progress_value (Suc m) len)] @ evs'"
      by (auto simp: Let_def)
    from Cons.prems(2) evs consider "Call i c b \<in> set ?seg" | "Call i c b \<in> set evs'"
      by auto
    then show ?thesis
    proof cases
      case 1
      then have im: "i = m" by auto
      have "evs = [] @ map (\<lambda>(c, b). Call i c b) (attempt (rejects i) (move_calls ((f # fs) ! (i - m))))
                 @ ([SetProgress (progress_value (Suc m) len)] @ evs')"
        using evs im by simp
      then have "\<exists>xs ys. evs = xs @ map (\<lambda>(c, b). Call i c b) (attempt (rejects i) (move_calls ((f # fs) ! (i - m)))) @ ys"
        by blast
      then show ?thesis
        using im by simp
    next
      case 2
      from Cons.IH [OF rest 2] obtain xs ys where
        i: "Suc m \<le> i" "i < Suc m + length fs"
        and e: "evs' = xs @ map (\<lambda>(c, b). Call i c b) (attempt (rejects i) (move_calls (fs ! (i - Suc m)))) @ ys"
        by blast
      from i have idx: "(f # fs) ! (i - m) = fs ! (i - Suc m)"
        by (simp add: nth_Cons')
      have "evs = (?seg @ [SetProgress (progress_value (Suc m) len)] @ xs)
                  @ map (\<lambda>(c, b). Call i c b) (attempt (rejects i) (move_calls ((f # fs) ! (i - m)))) @ ys"
        unfolding evs e idx by simp
      with i show ?thesis
        by (intro conjI exI [of _ "?seg @ [SetProgress (progress_value (Suc m) len)] @ xs"] exI [of _ ys]) simp_all
    qed
  qed
qed

subsection \<open>The order of the events\<close>

lemma before_append1: "before a b xs \<Longrightarrow> before a b (xs @ ys)"
  unfolding before_def by (metis append.assoc append_Cons)

lemma before_append2: "before a b ys \<Longrightarrow> before a b (xs @ ys)"
  unfolding before_def by (metis append.assoc)

lemma before_map: "before a b xs \<Longrightarrow> before (g a) (g b) (map g xs)"
  unfolding before_def by (metis list.simps(9) map_append)

lemma attempt_snoc:
  "\<forall>x \<in> set xs. \<not> r x \<Longrightarrow> attempt r (xs @ [c]) = map (\<lambda>c. (c, False)) xs @ [(c, r c)]"
  by (induction xs) auto

lemma organize_loop_member:
  "organize_loop rejects len fs m = (evs, moved', fin) \<Longrightarrow> Call i c b \<in> set evs \<Longrightarrow>
     m \<le> i \<and> i < m + length fs \<and> (c, b) \<in> set (attempt (rejects i) (move_calls (fs ! (i - m))))"
proof (induction fs arbitrary: m evs moved' fin)
  case Nil
  then show ?case by simp
next
  case (Cons f fs)
  let ?seg = "map (\<lambda>(c, b). Call m c b) (attempt (rejects m) (move_calls f))"
  obtain evs' m' d' where rest: "organize_loop rejects len fs (Suc m) = (evs', m', d')"
    by (cases "organize_loop rejects len fs (Suc m)") auto
  have "set evs \<subseteq> set ?seg \<union> {SetProgress (progress_value (Suc m) len)} \<union> set evs'"
    using Cons.prems(1) rest by (auto simp: Let_def split: if_splits)
  with Cons.prems(2) consider "Call i c b \<in> set ?seg" | "Call i c b \<in> set evs'"
    by auto
  then show ?case
  proof cases
    case 1
    then have "i = m" and "(c, b) \<in> set (attempt (rejects m) (move_calls f))"
      by auto
    then show ?thesis by simp
  next
    case 2
    from Cons.IH [OF rest 2] have
      i: "Suc m \<le> i" "i < Suc m + length fs"
      and e: "(c, b) \<in> set (attempt (rejects i) (move_calls (fs ! (i - Suc m))))"
      by blast+
    from i have idx: "(f # fs) ! (i - m) = fs ! (i - Suc m)"
      by (simp add: nth_Cons')
    show ?thesis
      using i e unfolding idx by simp
  qed
qed

subsection \<open>Reading the events of a loop that ran to its end\<close>

lemma upt_shift: "[m..<m + length (f # fs)] = m # [Suc m..<Suc m + length fs]"
  using upt_conv_Cons [of m "m + length (f # fs)"] by simp

lemma done_events_attempted:
  "List.map_filter start_index (done_events len m fs) = [m..<m + length fs]"
proof (induction fs arbitrary: m)
  case Nil
  then show ?case by (simp add: List.map_filter_simps)
next
  case (Cons f fs)
  have "List.map_filter start_index (map (\<lambda>c. Call m c False) (move_calls f)) = [m]"
    using start_index_attempt [of m "\<lambda>c. False" f]
    by (simp add: attempt_no_reject comp_def)
  then have "List.map_filter start_index (done_events len m (f # fs))
               = m # List.map_filter start_index (done_events len (Suc m) fs)"
    by (simp add: map_filter_append List.map_filter_simps)
  then show ?case
    unfolding Cons.IH upt_shift .
qed

lemma done_events_completed:
  "List.map_filter removal_index (done_events len m fs) = [m..<m + length fs]"
proof (induction fs arbitrary: m)
  case Nil
  then show ?case by (simp add: List.map_filter_simps)
next
  case (Cons f fs)
  have "List.map_filter removal_index (map (\<lambda>c. Call m c False) (move_calls f)) = [m]"
    using removal_index_attempt [of m "\<lambda>c. False" f]
    by (simp add: attempt_no_reject comp_def)
  then have "List.map_filter removal_index (done_events len m (f # fs))
               = m # List.map_filter removal_index (done_events len (Suc m) fs)"
    by (simp add: map_filter_append List.map_filter_simps)
  then show ?case
    unfolding Cons.IH upt_shift .
qed

lemma done_events_progress:
  "List.map_filter progress_of (done_events len m fs)
     = map (\<lambda>k. progress_value k len) [Suc m..<Suc m + length fs]"
proof (induction fs arbitrary: m)
  case Nil
  then show ?case by (simp add: List.map_filter_simps)
next
  case (Cons f fs)
  have "List.map_filter progress_of (map (\<lambda>c. Call m c False) (move_calls f)) = []"
    by (auto simp: map_filter_empty_iff)
  then have "List.map_filter progress_of (done_events len m (f # fs))
               = progress_value (Suc m) len # List.map_filter progress_of (done_events len (Suc m) fs)"
    by (simp add: map_filter_append List.map_filter_simps)
  then show ?case
    unfolding Cons.IH upt_shift [of "Suc m"] by simp
qed

lemma done_events_logs: "List.map_filter log_of (done_events len m fs) = []"
  by (induction fs arbitrary: m) (auto simp: map_filter_empty_iff)

lemma done_events_no_rescan: "Rescan \<notin> set (done_events len m fs)"
  by (induction fs arbitrary: m) auto

subsection \<open>The two ways a batch ends\<close>

lemma handleOrganize_done:
  assumes "\<forall>i < length (targets fs sel). \<forall>c \<in> set (move_calls (targets fs sel ! i)). \<not> rejects i c"
  shows "handleOrganize (Some h) rejects fs sel =
     Some ([Log INFO ''Executing batch organization...'', SetOrganizing True, SetProgress 0]
           @ done_events (length (targets fs sel)) 0 (targets fs sel)
           @ [Log SUCCESS (''Organized '' @ show_nat (length (targets fs sel)) @ '' files successfully.''),
              Rescan]
           @ [SetOrganizing False],
           length (targets fs sel))"
  using organize_loop_done [of "targets fs sel" rejects 0 "length (targets fs sel)"] assms
  by (simp add: handleOrganize_def Let_def)

lemma handleOrganize_failed:
  assumes "k < length (targets fs sel)"
    and "\<exists>c \<in> set (move_calls (targets fs sel ! k)). rejects k c"
    and "\<forall>i < k. \<forall>c \<in> set (move_calls (targets fs sel ! i)). \<not> rejects i c"
  shows "handleOrganize (Some h) rejects fs sel =
     Some ([Log INFO ''Executing batch organization...'', SetOrganizing True, SetProgress 0]
           @ (done_events (length (targets fs sel)) 0 (take k (targets fs sel))
              @ map (\<lambda>(c, b). Call k c b) (attempt (rejects k) (move_calls (targets fs sel ! k))))
           @ [Log ERROR ''Organization partially failed. Check permissions.'']
           @ [SetOrganizing False],
           k)"
  using organize_loop_fail [of k "targets fs sel" rejects 0 "length (targets fs sel)"] assms
  by (simp add: handleOrganize_def Let_def)

lemma write_in_move_calls: "Write (newFile_of f) (handle f) \<in> set (move_calls f)"
  using move_calls_shape [of f] by auto

lemma targets_five: "targets five_files (set (map name five_files)) = five_files"
  by (simp add: targets_def five_files_def js_def)

lemma length_five: "length five_files = 5"
  by (simp add: five_files_def)

lemma handleOrganize_failed_observed:
  assumes k: "k < length (targets fs sel)"
    and bad: "\<exists>c \<in> set (move_calls (targets fs sel ! k)). rejects k c"
    and ok: "\<forall>i < k. \<forall>c \<in> set (move_calls (targets fs sel ! i)). \<not> rejects i c"
  shows "\<exists>evs. handleOrganize (Some h) rejects fs sel = Some (evs, k)
           \<and> attempted evs = [0..<Suc k] \<and> completed evs = [0..<k]
           \<and> log_entries evs =
                [(INFO, ''Executing batch organization...''),
                 (ERROR, ''Organization partially failed. Check permissions.'')]
           \<and> Rescan \<notin> set evs"
proof -
  let ?ts = "targets fs sel"
  let ?seg = "map (\<lambda>(c, b). Call k c b) (attempt (rejects k) (move_calls (?ts ! k)))"
  let ?evs = "[Log INFO ''Executing batch organization...'', SetOrganizing True, SetProgress 0]
           @ (done_events (length ?ts) 0 (take k ?ts) @ ?seg)
           @ [Log ERROR ''Organization partially failed. Check permissions.'']
           @ [SetOrganizing False]"
  have run: "handleOrganize (Some h) rejects fs sel = Some (?evs, k)"
    by (rule handleOrganize_failed [OF k bad ok])
  have len: "length (take k ?ts) = k"
    using k by simp
  have seg_rescan: "Rescan \<notin> set ?seg"
    by auto
  have "attempted ?evs = [0..<Suc k] \<and> completed ?evs = [0..<k]
           \<and> log_entries ?evs =
                [(INFO, ''Executing batch organization...''),
                 (ERROR, ''Organization partially failed. Check permissions.'')]
           \<and> Rescan \<notin> set ?evs"
    unfolding attempted_def completed_def log_entries_def
    using bad seg_rescan k
    by (simp add: map_filter_append List.map_filter_simps done_events_attempted
        done_events_completed done_events_logs done_events_no_rescan len
        start_index_attempt removal_index_attempt progress_of_calls)
  with run show ?thesis by blast
qed

subsection \<open>Where the calls of a run come from\<close>

lemma handleOrganize_Some:
  "\<exists>evs moved. handleOrganize (Some h) rejects fs sel = Some (evs, moved)"
  by (cases "organize_loop rejects (length (targets fs sel)) (targets fs sel) 0")
     (simp add: handleOrganize_def Let_def)

lemma handleOrganize_calls:
  assumes "handleOrganize sourceHandle rejects fs sel = Some (evs, moved)"
    and "Call i c b \<in> set evs"
  shows "i < length (targets fs sel)
         \<and> (c, b) \<in> set (attempt (rejects i) (move_calls (targets fs sel ! i)))
         \<and> (\<exists>xs ys. evs = xs @ map (\<lambda>(c, b). Call i c b)
                                  (attempt (rejects i) (move_calls (targets fs sel ! i))) @ ys)"
proof -
  let ?ts = "targets fs sel"
  obtain levs m fin where loop: "organize_loop rejects (length ?ts) ?ts 0 = (levs, m, fin)"
    by (cases "organize_loop rejects (length ?ts) ?ts 0") auto
  let ?pre = "[Log INFO ''Executing batch organization...'', SetOrganizing True, SetProgress 0]"
  let ?post = "(if fin
                then [Log SUCCESS (''Organized '' @ show_nat m @ '' files successfully.''), Rescan]
                else [Log ERROR ''Organization partially failed. Check permissions.''])
               @ [SetOrganizing False]"
  have evs: "evs = ?pre @ levs @ ?post"
    using assms(1) loop by (cases sourceHandle) (auto simp: handleOrganize_def Let_def)
  have "Call i c b \<notin> set ?pre" "Call i c b \<notin> set ?post"
    by simp_all
  with assms(2) have mem: "Call i c b \<in> set levs"
    unfolding evs by simp
  from organize_loop_member [OF loop mem] have i: "i < length ?ts"
    and cb: "(c, b) \<in> set (attempt (rejects i) (move_calls (?ts ! i)))"
    by simp_all
  from organize_loop_segment [OF loop mem] obtain xs ys where
    "levs = xs @ map (\<lambda>(c, b). Call i c b) (attempt (rejects i) (move_calls (?ts ! i))) @ ys"
    by auto
  then have "evs = (?pre @ xs) @ map (\<lambda>(c, b). Call i c b) (attempt (rejects i) (move_calls (?ts ! i)))
                   @ (ys @ ?post)"
    unfolding evs by simp
  with i cb show ?thesis by blast
qed

lemma attempt_removal:
  assumes "(RemoveEntry p n, b) \<in> set (attempt r (move_calls f))"
  shows "n = name f
     \<and> (\<forall>c \<in> set (move_calls f). c \<noteq> RemoveEntry p n \<longrightarrow> \<not> r c)
     \<and> before (Write (newFile_of f) (handle f), False) (Close (newFile_of f), False)
          (attempt r (move_calls f))
     \<and> before (Close (newFile_of f), False) (RemoveEntry p n, b) (attempt r (move_calls f))"
proof -
  obtain w where mc: "move_calls f =
      GetDirectoryHandle [] (ToString (suggestedCategory f)) True
      # GetFile (handle f)
      # GetFileHandle [ToString (suggestedCategory f)] (name f) True
      # CreateWritable (newFile_of f)
      # Write (newFile_of f) (handle f)
      # Close (newFile_of f)
      # w @ [RemoveEntry (filter (\<lambda>part. part \<noteq> '''') (butlast (split CHR ''/'' (path f)))) (name f)]"
    and w: "\<forall>c \<in> set w. \<exists>p d. c = GetDirectoryHandle p d False"
    using move_calls_shape [of f] by blast
  define rm where "rm = RemoveEntry (filter (\<lambda>part. part \<noteq> '''') (butlast (split CHR ''/'' (path f)))) (name f)"
  define pre4 where "pre4 = [GetDirectoryHandle [] (ToString (suggestedCategory f)) True, GetFile (handle f),
      GetFileHandle [ToString (suggestedCategory f)] (name f) True, CreateWritable (newFile_of f)]"
  define pre where "pre = pre4 @ [Write (newFile_of f) (handle f), Close (newFile_of f)] @ w"
  have mc': "move_calls f = pre @ [rm]"
    unfolding mc pre_def pre4_def rm_def by simp
  have notin: "rm \<notin> set pre"
    using w unfolding pre_def pre4_def rm_def by auto
  from assms have "RemoveEntry p n \<in> set (move_calls f)" and b: "b = r (RemoveEntry p n)"
    using attempt_member by fastforce+
  then have eq: "RemoveEntry p n = rm"
    using w unfolding mc rm_def by auto
  then have n: "n = name f"
    unfolding rm_def by simp
  from assms have "(rm, b) \<in> set (attempt r (pre @ [rm]))"
    unfolding mc' eq .
  from attempt_reaches_last [OF this notin] have okpre: "\<forall>x \<in> set pre. \<not> r x" .
  have A: "attempt r (move_calls f) = map (\<lambda>c. (c, False)) pre @ [(rm, b)]"
    unfolding mc' using attempt_snoc [OF okpre, of rm] b eq by simp
  have ok: "\<forall>c \<in> set (move_calls f). c \<noteq> RemoveEntry p n \<longrightarrow> \<not> r c"
    unfolding mc' eq using okpre by auto
  have "attempt r (move_calls f) =
          map (\<lambda>c. (c, False)) pre4 @ (Write (newFile_of f) (handle f), False) # []
            @ (Close (newFile_of f), False) # (map (\<lambda>c. (c, False)) w @ [(rm, b)])"
    unfolding A pre_def by simp
  then have b1: "before (Write (newFile_of f) (handle f), False) (Close (newFile_of f), False)
          (attempt r (move_calls f))"
    unfolding before_def by blast
  have "attempt r (move_calls f) =
          (map (\<lambda>c. (c, False)) pre4 @ [(Write (newFile_of f) (handle f), False)])
            @ (Close (newFile_of f), False) # map (\<lambda>c. (c, False)) w
            @ (RemoveEntry p n, b) # []"
    unfolding A pre_def eq by simp
  then have b2: "before (Close (newFile_of f), False) (RemoveEntry p n, b) (attempt r (move_calls f))"
    unfolding before_def by blast
  from n ok b1 b2 show ?thesis by blast
qed

lemma before_segment:
  assumes "before (c, b) (c', b') A"
  shows "before (Call i c b) (Call i c' b') (xs @ map (\<lambda>(c, b). Call i c b) A @ ys)"
proof -
  from before_map [OF assms, of "\<lambda>(c, b). Call i c b"]
  have "before (Call i c b) (Call i c' b') (map (\<lambda>(c, b). Call i c b) A)"
    by simp
  then have "before (Call i c b) (Call i c' b') (map (\<lambda>(c, b). Call i c b) A @ ys)"
    by (rule before_append1)
  then show ?thesis
    by (rule before_append2)
qed

lemma targets_mixed:
  "targets mixed_files (set [''a.pdf'', ''mystery.xyz'']) = [mixed_files ! 0]"
  by (simp add: targets_def mixed_files_def js_def)

lemma never_rejects_ok:
  "\<forall>i < length ts. \<forall>c \<in> set (move_calls (ts ! i)). \<not> never_rejects i c"
  by (simp add: never_rejects_def)

lemma done_events_member:
  "i < length ts \<Longrightarrow> c \<in> set (move_calls (ts ! i))
     \<Longrightarrow> Call (m + i) c False \<in> set (done_events len m ts)"
proof (induction ts arbitrary: m i)
  case Nil
  then show ?case by simp
next
  case (Cons f ts)
  show ?case
  proof (cases i)
    case 0
    with Cons.prems show ?thesis by auto
  next
    case (Suc j)
    with Cons.prems have "Call (Suc m + j) c False \<in> set (done_events len (Suc m) ts)"
      by (intro Cons.IH) simp_all
    with Suc show ?thesis by simp
  qed
qed

lemma handleOrganize_done_observed:
  assumes "\<forall>i < length (targets fs sel). \<forall>c \<in> set (move_calls (targets fs sel ! i)). \<not> rejects i c"
    and "i < length (targets fs sel)"
    and "c \<in> set (move_calls (targets fs sel ! i))"
  shows "\<exists>evs. handleOrganize (Some h) rejects fs sel = Some (evs, length (targets fs sel))
           \<and> Call i c False \<in> set evs"
proof -
  from done_events_member [OF assms(2,3), of 0 "length (targets fs sel)"]
  have "Call i c False \<in> set (done_events (length (targets fs sel)) 0 (targets fs sel))"
    by simp
  then show ?thesis
    unfolding handleOrganize_done [OF assms(1)] by simp
qed

lemma handleOrganize_failed_calls:
  assumes k: "k < length (targets fs sel)"
    and bad: "\<exists>c \<in> set (move_calls (targets fs sel ! k)). rejects k c"
    and ok: "\<forall>i < k. \<forall>c \<in> set (move_calls (targets fs sel ! i)). \<not> rejects i c"
    and "handleOrganize (Some h) rejects fs sel = Some (evs, moved)"
  shows "(i < k \<and> c \<in> set (move_calls (targets fs sel ! i)) \<longrightarrow> Call i c False \<in> set evs)
       \<and> ((c, b) \<in> set (attempt (rejects k) (move_calls (targets fs sel ! k))) \<longrightarrow> Call k c b \<in> set evs)"
proof -
  let ?ts = "targets fs sel"
  have evs: "evs = [Log INFO ''Executing batch organization...'', SetOrganizing True, SetProgress 0]
           @ (done_events (length ?ts) 0 (take k ?ts)
              @ map (\<lambda>(c, b). Call k c b) (attempt (rejects k) (move_calls (?ts ! k))))
           @ [Log ERROR ''Organization partially failed. Check permissions.'']
           @ [SetOrganizing False]"
    using handleOrganize_failed [OF k bad ok, of h] assms(4) by simp
  have 1: "Call i c False \<in> set evs" if "i < k" "c \<in> set (move_calls (?ts ! i))"
  proof -
    from that k have "i < length (take k ?ts)" "c \<in> set (move_calls (take k ?ts ! i))"
      by simp_all
    from done_events_member [OF this, of 0 "length ?ts"] show ?thesis
      unfolding evs by simp
  qed
  have 2: "Call k c b \<in> set evs" if "(c, b) \<in> set (attempt (rejects k) (move_calls (?ts ! k)))"
    unfolding evs using that by force
  from 1 2 show ?thesis by blast
qed

lemma third_write_fails_setup:
  "2 < length (targets five_files (set (map name five_files)))"
  "\<exists>c \<in> set (move_calls (targets five_files (set (map name five_files)) ! 2)). third_write_fails 2 c"
  "\<forall>i < 2. \<forall>c \<in> set (move_calls (targets five_files (set (map name five_files)) ! i)).
      \<not> third_write_fails i c"
proof -
  show "2 < length (targets five_files (set (map name five_files)))"
    unfolding targets_five length_five by simp
  have "third_write_fails 2 (Write (newFile_of (five_files ! 2)) (handle (five_files ! 2)))"
    by (simp add: third_write_fails_def)
  then show "\<exists>c \<in> set (move_calls (targets five_files (set (map name five_files)) ! 2)).
      third_write_fails 2 c"
    unfolding targets_five using write_in_move_calls by blast
  show "\<forall>i < 2. \<forall>c \<in> set (move_calls (targets five_files (set (map name five_files)) ! i)).
      \<not> third_write_fails i c"
    by (simp add: third_write_fails_def)
qed

lemma upt_small:
  "[0..<Suc 2] = [0, 1, 2]" "[0..<2] = [0, 1]" "[0..<5] = [0, 1, 2, 3, 4]"
  by (simp_all add: upt_rec)

text \<open>
  The export of the second variant plans every selected file, whatever its category.
\<close>

lemma toMove_iff:
  "f \<in> set (toMove fs selectedFiles) \<longleftrightarrow> f \<in> set fs \<and> name f \<in> selectedFiles"
  by (simp add: toMove_def)

section \<open>Facts about the walker\<close>

lemma reachable_files_prefix:
  "p \<in> set (reachable_files loc es) \<Longrightarrow> set loc \<subseteq> set p"
  by (induction loc es arbitrary: p rule: reachable_files.induct) auto

lemma reachable_files_under_excluded:
  "nm \<in> ex \<Longrightarrow> filter (\<lambda>p. set p \<inter> ex = {}) (reachable_files (loc @ [nm]) sub) = []"
  using reachable_files_prefix [of _ "loc @ [nm]" sub]
  by (fastforce simp: filter_empty_conv)

lemma scan_readable:
  "readable ex es \<longleftrightarrow> (\<exists>found. scan ex loc cp es acc = Inr found)"
proof (induction ex loc cp es acc rule: scan.induct)
  case (1 ex loc cp acc)
  then show ?case by simp
next
  case (2 ex loc cp es acc)
  then show ?case by simp
next
  case (3 ex loc cp nm meta es acc)
  then show ?case
    by (cases meta) auto
next
  case (4 ex loc cp nm sub es acc)
  show ?case
  proof (cases "nm \<in> ex")
    case True
    with 4(1) show ?thesis by simp
  next
    case False
    show ?thesis
    proof (cases "scan ex (loc @ [nm]) (child_path cp nm) sub acc")
      case (Inl e)
      with False 4(2) show ?thesis by simp
    next
      case (Inr found')
      with False 4(2) 4(3) [OF False Inr] show ?thesis by simp
    qed
  qed
qed

lemma scan_handles:
  "scan ex loc cp es acc = Inr found \<Longrightarrow> set loc \<inter> ex = {} \<Longrightarrow>
     map handle found
       = map handle acc @ filter (\<lambda>p. set p \<inter> ex = {}) (reachable_files loc es)"
proof (induction ex loc cp es acc arbitrary: found rule: scan.induct)
  case (1 ex loc cp acc)
  then show ?case by simp
next
  case (2 ex loc cp es acc)
  then show ?case by simp
next
  case (3 ex loc cp nm meta es acc)
  show ?case
  proof (cases "nm \<in> ex")
    case True
    with 3 show ?thesis by simp
  next
    case False
    with 3(3) obtain sz lm where meta: "meta = Some (sz, lm)"
      by (cases meta) auto
    from 3(2) [OF False meta refl] 3(3) 3(4) False meta show ?thesis
      by simp
  qed
next
  case (4 ex loc cp nm sub es acc)
  show ?case
  proof (cases "nm \<in> ex")
    case True
    with 4(1) [OF True] 4(4) 4(5) show ?thesis
      by (simp add: reachable_files_under_excluded)
  next
    case False
    with 4(4) obtain found' where
      sub: "scan ex (loc @ [nm]) (child_path cp nm) sub acc = Inr found'"
      and rest: "scan ex loc cp es found' = Inr found"
      by (cases "scan ex (loc @ [nm]) (child_path cp nm) sub acc") auto
    from False 4(5) have "set (loc @ [nm]) \<inter> ex = {}"
      by simp
    from 4(2) [OF False sub this] 4(3) [OF False sub rest 4(5)] show ?thesis
      by simp
  qed
qed

lemma segments_child_path:
  assumes "nm \<noteq> ''''" "CHR ''/'' \<notin> set nm"
  shows "segments (child_path cp nm) = segments cp @ [nm]"
  using assms
  by (simp add: segments_def child_path_def split_append split_no_sep)

lemma scan_paths:
  "scan ex loc cp es acc = Inr found \<Longrightarrow> segments cp = loc \<Longrightarrow>
   \<forall>nm \<in> set (entry_names es). nm \<noteq> '''' \<and> CHR ''/'' \<notin> set nm \<Longrightarrow>
   \<forall>f \<in> set acc. segments (path f) = handle f \<Longrightarrow>
   \<forall>f \<in> set found. segments (path f) = handle f"
proof (induction ex loc cp es acc arbitrary: found rule: scan.induct)
  case (1 ex loc cp acc)
  then show ?case by simp
next
  case (2 ex loc cp es acc)
  then show ?case by simp
next
  case (3 ex loc cp nm meta es acc)
  show ?case
  proof (cases "nm \<in> ex")
    case True
    with 3 show ?thesis by simp
  next
    case False
    with 3(3) obtain sz lm where meta: "meta = Some (sz, lm)"
      by (cases meta) auto
    from 3(5) have nm: "nm \<noteq> ''''" "CHR ''/'' \<notin> set nm"
      by simp_all
    show ?thesis
    proof (rule 3(2) [OF False meta refl])
      show "scan ex loc cp es
             (acc @ [\<lparr>name = nm, kind = File, size' = sz, lastModified = lm,
                      extension = extension_of nm, suggestedCategory = js UNKNOWN,
                      handle = loc @ [nm], path = child_path cp nm\<rparr>]) = Inr found"
        using 3(3) False meta by simp
      show "segments cp = loc" by (rule 3(4))
      show "\<forall>nm \<in> set (entry_names es). nm \<noteq> '''' \<and> CHR ''/'' \<notin> set nm"
        using 3(5) by simp
      show "\<forall>f \<in> set (acc @ [\<lparr>name = nm, kind = File, size' = sz, lastModified = lm,
                      extension = extension_of nm, suggestedCategory = js UNKNOWN,
                      handle = loc @ [nm], path = child_path cp nm\<rparr>]).
              segments (path f) = handle f"
        using 3(6) 3(4) segments_child_path [OF nm, of cp] by simp
    qed
  qed
next
  case (4 ex loc cp nm sub es acc)
  show ?case
  proof (cases "nm \<in> ex")
    case True
    with 4(1) [OF True] 4(4) 4(5) 4(6) 4(7) show ?thesis
      by simp
  next
    case False
    with 4(4) obtain found' where
      sub: "scan ex (loc @ [nm]) (child_path cp nm) sub acc = Inr found'"
      and rest: "scan ex loc cp es found' = Inr found"
      by (cases "scan ex (loc @ [nm]) (child_path cp nm) sub acc") auto
    from 4(6) have nm: "nm \<noteq> ''''" "CHR ''/'' \<notin> set nm"
      by simp_all
    have cp': "segments (child_path cp nm) = loc @ [nm]"
      using segments_child_path [OF nm, of cp] 4(5) by simp
    have "\<forall>f \<in> set found'. segments (path f) = handle f"
      using 4(2) [OF False sub cp' _ 4(7)] 4(6) by simp
    with 4(3) [OF False sub rest 4(5)] 4(6) show ?thesis
      by simp
  qed
qed

lemma segments_split:
  "segments p = h \<Longrightarrow> h \<noteq> [] \<Longrightarrow> split CHR ''/'' p = h"
  by (auto simp: segments_def split: if_splits)

lemma reachable_files_not_Nil:
  "p \<in> set (reachable_files loc es) \<Longrightarrow> p \<noteq> []"
  by (induction loc es arbitrary: p rule: reachable_files.induct) auto

section \<open>Facts about the duplicate detector\<close>

lemma show_nat_not_Nil: "show_nat n \<noteq> []"
  by (subst show_nat.simps) simp

lemma digit_char_inj: "a < 10 \<Longrightarrow> b < 10 \<Longrightarrow> digit_char a = digit_char b \<Longrightarrow> a = b"
proof -
  assume a: "a < 10" and b: "b < 10" and eq: "digit_char a = digit_char b"
  from eq have "(of_char (digit_char a) :: nat) = of_char (digit_char b)"
    by simp
  with a b show "a = b"
    by (simp add: digit_char_def)
qed

lemma show_nat_inj: "show_nat a = show_nat b \<Longrightarrow> a = b"
proof (induction a arbitrary: b rule: show_nat.induct)
  case (1 n)
  show ?case
  proof (cases "n < 10")
    case n: True
    show ?thesis
    proof (cases "b < 10")
      case True
      with n 1(2) show ?thesis
        by (simp add: show_nat.simps [of n] show_nat.simps [of b] digit_char_inj)
    next
      case False
      with n 1(2) show_nat_not_Nil [of "b div 10"] show ?thesis
        by (simp add: show_nat.simps [of n] show_nat.simps [of b] Cons_eq_append_conv)
    qed
  next
    case n: False
    show ?thesis
    proof (cases "b < 10")
      case True
      with n 1(2) show_nat_not_Nil [of "n div 10"] show ?thesis
        by (simp add: show_nat.simps [of n] show_nat.simps [of b] append_eq_Cons_conv)
    next
      case False
      with n 1(2) have eq: "show_nat (n div 10) = show_nat (b div 10)"
        and d: "digit_char (n mod 10) = digit_char (b mod 10)"
        by (simp_all add: show_nat.simps [of n] show_nat.simps [of b])
      from 1(1) [OF n eq] have q: "n div 10 = b div 10" .
      from d have r: "n mod 10 = b mod 10"
        by (intro digit_char_inj) simp_all
      from q r show ?thesis
        by (metis div_mult_mod_eq)
    qed
  qed
qed

lemma group_by_size_new:
  assumes "size' f \<notin> fst ` set sizeGroups"
  shows "group_by_size f sizeGroups = sizeGroups @ [(size' f, [f])]"
proof -
  from assms have none: "map_of sizeGroups (size' f) = None"
    by (simp add: map_of_eq_None_iff)
  from assms have keep:
    "map (\<lambda>(k', v'). if k' = size' f then (k', [f]) else (k', v')) sizeGroups = sizeGroups"
    by (induction sizeGroups) auto
  from none assms keep show ?thesis
    by (simp add: group_by_size_def obj_set_def Let_def map_add_def)
qed

lemma group_by_size_old:
  assumes "map_of sizeGroups (size' f) = Some members"
  shows "group_by_size f sizeGroups
           = map (\<lambda>(k', v'). if k' = size' f then (k', members @ [f]) else (k', v')) sizeGroups"
proof -
  from assms have "size' f \<in> fst ` set sizeGroups"
    by (metis map_of_eq_None_iff option.distinct(1))
  with assms show ?thesis
    by (simp add: group_by_size_def obj_set_def Let_def)
qed

lemma size_groups_snoc:
  "size_groups (fs @ [f]) = group_by_size f (size_groups fs)"
  by (simp add: size_groups_def)

lemma size_groups_inv:
  "distinct (map fst (size_groups fs))
   \<and> fst ` set (size_groups fs) = size' ` set fs
   \<and> (\<forall>(k, v) \<in> set (size_groups fs). v = filter (\<lambda>f. size' f = k) fs)"
proof (induction fs rule: rev_induct)
  case Nil
  then show ?case by (simp add: size_groups_def)
next
  case (snoc f fs)
  let ?sg = "size_groups fs"
  from snoc have dist: "distinct (map fst ?sg)"
    and keys: "fst ` set ?sg = size' ` set fs"
    and vals: "\<And>k v. (k, v) \<in> set ?sg \<Longrightarrow> v = filter (\<lambda>f. size' f = k) fs"
    by auto
  show ?case
  proof (cases "size' f \<in> fst ` set ?sg")
    case False
    then have eq: "size_groups (fs @ [f]) = ?sg @ [(size' f, [f])]"
      by (simp add: size_groups_snoc group_by_size_new)
    from False keys have "size' f \<notin> size' ` set fs"
      by simp
    then have "\<forall>f' \<in> set fs. size' f' \<noteq> size' f"
      by (metis imageI)
    then have none: "filter (\<lambda>f'. size' f' = size' f) fs = []"
      by (simp add: filter_empty_conv)
    have old: "v = filter (\<lambda>f'. size' f' = k) fs \<and> k \<noteq> size' f" if "(k, v) \<in> set ?sg" for k v
      using that vals [OF that] False by force
    have d: "distinct (map fst (?sg @ [(size' f, [f])]))"
      using dist False by simp
    have k: "fst ` set (?sg @ [(size' f, [f])]) = size' ` set (fs @ [f])"
      using keys by auto
    have v: "\<forall>(k, v) \<in> set (?sg @ [(size' f, [f])]). v = filter (\<lambda>f'. size' f' = k) (fs @ [f])"
    proof (clarify)
      fix k v assume "(k, v) \<in> set (?sg @ [(size' f, [f])])"
      then consider "(k, v) \<in> set ?sg" | "k = size' f" "v = [f]"
        by auto
      then show "v = filter (\<lambda>f'. size' f' = k) (fs @ [f])"
      proof cases
        case 1
        from old [OF this] show ?thesis by simp
      next
        case 2
        with none show ?thesis by simp
      qed
    qed
    from d k v show ?thesis
      unfolding eq by blast
  next
    case True
    then obtain members where m: "map_of ?sg (size' f) = Some members"
      by (metis map_of_eq_None_iff not_Some_eq)
    then have "(size' f, members) \<in> set ?sg"
      by (rule map_of_SomeD)
    from vals [OF this] have members: "members = filter (\<lambda>f'. size' f' = size' f) fs" .
    let ?upd = "\<lambda>(k', v'). if k' = size' f then (k', members @ [f]) else (k', v')"
    have eq: "size_groups (fs @ [f]) = map ?upd ?sg"
      by (simp add: size_groups_snoc group_by_size_old [OF m])
    have fst_upd: "map fst (map ?upd ?sg) = map fst ?sg"
      by (induction ?sg) auto
    have d: "distinct (map fst (map ?upd ?sg))"
      unfolding fst_upd by (rule dist)
    have "fst ` set (map ?upd ?sg) = set (map fst (map ?upd ?sg))"
      by (simp only: set_map)
    also have "\<dots> = fst ` set ?sg"
      unfolding fst_upd by simp
    also have "\<dots> = size' ` set (fs @ [f])"
      using keys True by auto
    finally have k: "fst ` set (map ?upd ?sg) = size' ` set (fs @ [f])" .
    have v: "\<forall>(k, v) \<in> set (map ?upd ?sg). v = filter (\<lambda>f'. size' f' = k) (fs @ [f])"
    proof (clarify)
      fix k v assume "(k, v) \<in> set (map ?upd ?sg)"
      then obtain k' v' where in_sg: "(k', v') \<in> set ?sg" and kv: "(k, v) = ?upd (k', v')"
        by auto
      show "v = filter (\<lambda>f'. size' f' = k) (fs @ [f])"
      proof (cases "k' = size' f")
        case True
        with kv have "k = size' f" "v = members @ [f]"
          by simp_all
        with members show ?thesis by simp
      next
        case False
        with kv have "k = k'" "v = v'"
          by simp_all
        with vals [OF in_sg] False show ?thesis by simp
      qed
    qed
    from d k v show ?thesis
      unfolding eq by blast
  qed
qed

lemma Object_entries_set: "set (Object_entries obj) = set obj"
  by (auto simp: Object_entries_def)

lemma Object_entries_distinct:
  "distinct (map fst obj) \<Longrightarrow> distinct (map fst (Object_entries obj))"
  by (auto simp: distinct_map Object_entries_def inj_on_def)

lemma duplicate_groups_eq:
  "\<exists>ns. distinct ns
      \<and> set ns = {n. 2 \<le> length (filter (\<lambda>f. size' f = n) fs)}
      \<and> duplicate_groups fs
          = map (\<lambda>n. \<lparr>id' = ''size-'' @ show_nat n, files = filter (\<lambda>f. size' f = n) fs,
                       resolved = False\<rparr>) ns"
proof -
  let ?sg = "size_groups fs"
  let ?es = "filter (\<lambda>(sz, groupFiles). length groupFiles > 1) (Object_entries ?sg)"
  let ?ns = "map fst ?es"
  from size_groups_inv [of fs] have dist: "distinct (map fst ?sg)"
    and keys: "fst ` set ?sg = size' ` set fs"
    and vals: "\<And>k v. (k, v) \<in> set ?sg \<Longrightarrow> v = filter (\<lambda>f. size' f = k) fs"
    by auto
  have d: "distinct ?ns"
    by (rule distinct_map_filter) (rule Object_entries_distinct [OF dist])
  have s: "set ?ns = {n. 2 \<le> length (filter (\<lambda>f. size' f = n) fs)}"
  proof (rule set_eqI)
    fix n
    show "n \<in> set ?ns \<longleftrightarrow> n \<in> {n. 2 \<le> length (filter (\<lambda>f. size' f = n) fs)}"
    proof
      assume "n \<in> set ?ns"
      then obtain v where "(n, v) \<in> set ?sg" "length v > 1"
        by (auto simp: Object_entries_set)
      with vals [of n v] show "n \<in> {n. 2 \<le> length (filter (\<lambda>f. size' f = n) fs)}"
        by simp
    next
      assume "n \<in> {n. 2 \<le> length (filter (\<lambda>f. size' f = n) fs)}"
      then have two: "2 \<le> length (filter (\<lambda>f. size' f = n) fs)"
        by simp
      then have "filter (\<lambda>f. size' f = n) fs \<noteq> []"
        by auto
      then have "n \<in> size' ` set fs"
        by (auto simp: filter_empty_conv)
      with keys obtain v where in_sg: "(n, v) \<in> set ?sg"
        by force
      from vals [OF this] two have "length v > 1"
        by simp
      with in_sg have "(n, v) \<in> set ?es"
        by (simp add: Object_entries_set)
      then show "n \<in> set ?ns"
        by force
    qed
  qed
  have "map (\<lambda>(sz, groupFiles). \<lparr>id' = ''size-'' @ show_nat sz, files = groupFiles, resolved = False\<rparr>) ?es
      = map ((\<lambda>n. \<lparr>id' = ''size-'' @ show_nat n, files = filter (\<lambda>f. size' f = n) fs,
                       resolved = False\<rparr>) \<circ> fst) ?es"
  proof (rule map_cong [OF refl])
    fix e assume "e \<in> set ?es"
    then have "e \<in> set ?sg"
      by (simp add: Object_entries_set)
    with vals [of "fst e" "snd e"] have "snd e = filter (\<lambda>f. size' f = fst e) fs"
      by simp
    then show "(case e of (sz, groupFiles) \<Rightarrow>
                 \<lparr>id' = ''size-'' @ show_nat sz, files = groupFiles, resolved = False\<rparr>)
             = ((\<lambda>n. \<lparr>id' = ''size-'' @ show_nat n, files = filter (\<lambda>f. size' f = n) fs,
                       resolved = False\<rparr>) \<circ> fst) e"
      by (cases e) simp
  qed
  then have e: "duplicate_groups fs
          = map (\<lambda>n. \<lparr>id' = ''size-'' @ show_nat n, files = filter (\<lambda>f. size' f = n) fs,
                       resolved = False\<rparr>) ?ns"
    by (simp add: duplicate_groups_def)
  from d s e show ?thesis by blast
qed

lemma duplicate_groups_six:
  "map id' (duplicate_groups six_files) = [''size-100'', ''size-300'']
   \<and> map (\<lambda>g. map name (files g)) (duplicate_groups six_files)
       = [[''f1.bin'', ''f2.bin''], [''f4.bin'', ''f5.bin'', ''f6.bin'']]
   \<and> map resolved (duplicate_groups six_files) = [False, False]"
  by code_simp

section \<open>The claims\<close>

text \<open>
  C3. The spec gives the extension of a name without a dot as the empty string
  (\<open>README\<close> has extension \<open>''''\<close>). The scan's expression takes the last piece of
  \<open>name.split('.')\<close>, which for such a name is the whole name: \<open>README\<close> gets the
  extension \<open>readme\<close>, while \<open>Report.PDF\<close> gets \<open>pdf\<close> as the spec says.
\<close>

theorem extension_of_README:
  "extension_of ''README'' = ''readme'' \<and> extension_of ''README'' \<noteq> ''''
   \<and> extension_of ''Report.PDF'' = ''pdf''"
  by code_simp

text \<open>
  C10. The spec takes the mapping that \<open>categorizeFiles\<close> returns to hold an entry for
  every requested name. It does not for a name that \<open>Object.prototype\<close> defines: with the
  reply \<open>[]\<close> and the one name \<open>constructor\<close>, the test \<open>!result[name]\<close> reads the inherited
  function, nothing is stored, and the mapping comes back empty; the caller who reads
  \<open>constructor\<close> in it gets that function. The fallback table is read the same way: with
  an empty reply text the name \<open>notes.constructor\<close> gets the inherited function as its
  category, not Unknown. And when the client object cannot be built the call ends with
  the exception: no mapping is returned.
\<close>

theorem categorizeFiles_not_total:
  "categorizeFiles (Parsed (JArray [])) [''constructor''] = Returned []
   \<and> read_property [] ''constructor'' = Some (Builtin ''constructor'')
   \<and> categorizeFiles EmptyText [''notes.constructor'']
       = Returned [(''notes.constructor'', Builtin ''constructor'')]
   \<and> categorizeFiles ClientThrows [''constructor''] = Thrown ClientError"
  by code_simp

text \<open>
  C6. The spec has a reply entry whose category is outside the closed set treated as no
  answer, and no failure of the oracle reach the caller. The program stores
  \<open>item.category\<close> as it comes: the reply \<open>[{fileName: 'a.zip', category:
  'Spreadsheets'}]\<close> gives \<open>a.zip\<close> the category \<open>Spreadsheets\<close>, not the \<open>Archives\<close> of the
  table. And the client object is built outside the \<open>try\<close> block: when that fails,
  \<open>categorizeFiles\<close> ends with the exception and \<open>performScan\<close> shows a failed scan.
\<close>

theorem categorizeFiles_keeps_unlisted_category:
  "categorizeFiles (Parsed (JArray [answer_item ''a.zip'' (JString ''Spreadsheets'')])) [''a.zip'']
     = Returned [(''a.zip'', Json (JString ''Spreadsheets''))]
   \<and> Json (JString ''Spreadsheets'') \<notin> set FileCategory_values
   \<and> fallback_category ''a.zip'' = js ARCHIVES
   \<and> categorizeFiles ClientThrows [''a.zip''] = Thrown ClientError
   \<and> performScan [] {} ClientThrows [FileEntry ''a.zip'' (Some (1, 0))] = CategorizationFailed []"
  by code_simp

text \<open>
  C5. The spec has a custom rule for the file's extension decide before the oracle's
  answer. \<open>performScan\<close> never reads the saved rules: with the rule \<open>pdf\<close> to Images saved
  and the oracle answering Documents for \<open>report.pdf\<close>, the file is given Documents and
  is selected, where the precedence of the spec gives Images.
\<close>

theorem performScan_ignores_customRules:
  "performScan [(''pdf'', js IMAGES)] {}
       (Parsed (JArray [answer_item ''report.pdf'' (JString ''Documents'')]))
       [FileEntry ''report.pdf'' (Some (10, 0))]
     = Scanned
         [\<lparr>name = ''report.pdf'', kind = File, size' = 10, lastModified = 0, extension = ''pdf'',
            suggestedCategory = js DOCUMENTS, handle = [''report.pdf''], path = ''report.pdf''\<rparr>]
         [] {''report.pdf''}
   \<and> classifier_precedence (map_of [(''pdf'', js IMAGES)]) (map_of [(''report.pdf'', js DOCUMENTS)])
         (map_of extensions) ''pdf'' ''report.pdf'' = js IMAGES"
  by code_simp

text \<open>
  C1. The spec states a continue-on-error policy with a final summary of attempted,
  succeeded and failed counts. \<open>handleOrganize\<close> awaits every call of the batch inside one
  \<open>try\<close>: the first call that rejects ends the loop. What holds is: a batch on which no
  call rejects attempts and completes every planned operation, logs the number of files
  organized and starts a new scan; a batch whose operation \<open>k\<close> (counted from 0) is the
  first with a rejecting call completes exactly the operations before \<open>k\<close>, attempts
  operation \<open>k\<close> and none after it, logs one error line without any count, and starts no
  new scan.
\<close>

theorem handleOrganize_stops_at_first_failure:
  assumes "handleOrganize (Some h) rejects fs selectedFiles = Some (evs, moved)"
    and "ts = targets fs selectedFiles"
  shows "((\<forall>i < length ts. \<forall>c \<in> set (move_calls (ts ! i)). \<not> rejects i c) \<longrightarrow>
            moved = length ts \<and> attempted evs = [0..<length ts] \<and> completed evs = [0..<length ts]
            \<and> log_entries evs =
                [(INFO, ''Executing batch organization...''),
                 (SUCCESS, ''Organized '' @ show_nat (length ts) @ '' files successfully.'')]
            \<and> Rescan \<in> set evs)
       \<and> (k < length ts \<and> (\<exists>c \<in> set (move_calls (ts ! k)). rejects k c)
            \<and> (\<forall>i < k. \<forall>c \<in> set (move_calls (ts ! i)). \<not> rejects i c) \<longrightarrow>
            moved = k \<and> attempted evs = [0..<Suc k] \<and> completed evs = [0..<k]
            \<and> log_entries evs =
                [(INFO, ''Executing batch organization...''),
                 (ERROR, ''Organization partially failed. Check permissions.'')]
            \<and> Rescan \<notin> set evs)"
proof (rule conjI; rule impI)
  assume ok: "\<forall>i < length ts. \<forall>c \<in> set (move_calls (ts ! i)). \<not> rejects i c"
  from handleOrganize_done [of fs selectedFiles rejects h] ok assms
  have evs: "evs = [Log INFO ''Executing batch organization...'', SetOrganizing True, SetProgress 0]
           @ done_events (length ts) 0 ts
           @ [Log SUCCESS (''Organized '' @ show_nat (length ts) @ '' files successfully.''), Rescan]
           @ [SetOrganizing False]"
    and moved: "moved = length ts"
    by simp_all
  show "moved = length ts \<and> attempted evs = [0..<length ts] \<and> completed evs = [0..<length ts]
            \<and> log_entries evs =
                [(INFO, ''Executing batch organization...''),
                 (SUCCESS, ''Organized '' @ show_nat (length ts) @ '' files successfully.'')]
            \<and> Rescan \<in> set evs"
    unfolding evs attempted_def completed_def log_entries_def
    using moved
    by (simp add: map_filter_append List.map_filter_simps done_events_attempted
        done_events_completed done_events_logs)
next
  assume "k < length ts \<and> (\<exists>c \<in> set (move_calls (ts ! k)). rejects k c)
            \<and> (\<forall>i < k. \<forall>c \<in> set (move_calls (ts ! i)). \<not> rejects i c)"
  then have k: "k < length ts" and bad: "\<exists>c \<in> set (move_calls (ts ! k)). rejects k c"
    and ok: "\<forall>i < k. \<forall>c \<in> set (move_calls (ts ! i)). \<not> rejects i c"
    by blast+
  let ?seg = "map (\<lambda>(c, b). Call k c b) (attempt (rejects k) (move_calls (ts ! k)))"
  from handleOrganize_failed [of k fs selectedFiles rejects h] k bad ok assms
  have evs: "evs = [Log INFO ''Executing batch organization...'', SetOrganizing True, SetProgress 0]
           @ (done_events (length ts) 0 (take k ts) @ ?seg)
           @ [Log ERROR ''Organization partially failed. Check permissions.'']
           @ [SetOrganizing False]"
    and moved: "moved = k"
    by simp_all
  have len: "length (take k ts) = k"
    using k by simp
  have seg_rescan: "Rescan \<notin> set ?seg"
    by auto
  show "moved = k \<and> attempted evs = [0..<Suc k] \<and> completed evs = [0..<k]
            \<and> log_entries evs =
                [(INFO, ''Executing batch organization...''),
                 (ERROR, ''Organization partially failed. Check permissions.'')]
            \<and> Rescan \<notin> set evs"
    unfolding evs attempted_def completed_def log_entries_def
    using moved bad seg_rescan k
    by (simp add: map_filter_append List.map_filter_simps done_events_attempted
        done_events_completed done_events_logs done_events_no_rescan len
        start_index_attempt removal_index_attempt progress_of_calls)
qed

text \<open>
  The spec's example for C1: five planned operations, the write of the third rejects. The
  first two are completed, the third is attempted, the fourth and the fifth are never
  attempted, and the only report is the error line.
\<close>

theorem handleOrganize_halts_counterexample:
  "\<exists>evs. handleOrganize (Some ''Downloads'') third_write_fails five_files (set (map name five_files))
            = Some (evs, 2)
        \<and> attempted evs = [0, 1, 2]
        \<and> completed evs = [0, 1]
        \<and> 3 \<notin> set (attempted evs) \<and> 4 \<notin> set (attempted evs)
        \<and> log_entries evs =
             [(INFO, ''Executing batch organization...''),
              (ERROR, ''Organization partially failed. Check permissions.'')]"
proof -
  have "[0..<Suc 2] = [0, 1, 2]" "[0..<2] = [0, Suc 0]"
    by (simp_all add: upt_rec)
  with handleOrganize_failed_observed [OF third_write_fails_setup, of "''Downloads''"]
  show ?thesis
    by auto
qed

theorem handleOrganize_stops_at_first_failure_witness:
  "(\<exists>evs moved.
      handleOrganize (Some ''Downloads'') third_write_fails five_files (set (map name five_files))
        = Some (evs, moved)
      \<and> 2 < length (targets five_files (set (map name five_files)))
      \<and> moved = 2 \<and> attempted evs = [0, 1, 2] \<and> completed evs = [0, 1]
      \<and> Rescan \<notin> set evs)
   \<and> (\<exists>evs moved.
      handleOrganize (Some ''Downloads'') never_rejects five_files (set (map name five_files))
        = Some (evs, moved)
      \<and> moved = 5 \<and> attempted evs = [0, 1, 2, 3, 4] \<and> completed evs = [0, 1, 2, 3, 4]
      \<and> Rescan \<in> set evs)"
proof
  let ?sel = "set (map name five_files)"
  obtain evs moved where
    run: "handleOrganize (Some ''Downloads'') third_write_fails five_files ?sel = Some (evs, moved)"
    using handleOrganize_Some by blast
  from handleOrganize_stops_at_first_failure [OF run refl, of 2, THEN conjunct2]
    third_write_fails_setup
  have "moved = 2 \<and> attempted evs = [0..<Suc 2] \<and> completed evs = [0..<2]
        \<and> Rescan \<notin> set evs"
    by blast
  with run third_write_fails_setup(1)
  show "\<exists>evs moved.
      handleOrganize (Some ''Downloads'') third_write_fails five_files ?sel = Some (evs, moved)
      \<and> 2 < length (targets five_files ?sel)
      \<and> moved = 2 \<and> attempted evs = [0, 1, 2] \<and> completed evs = [0, 1]
      \<and> Rescan \<notin> set evs"
    unfolding upt_small by blast
next
  let ?sel = "set (map name five_files)"
  obtain evs moved where
    run: "handleOrganize (Some ''Downloads'') never_rejects five_files ?sel = Some (evs, moved)"
    using handleOrganize_Some by blast
  from handleOrganize_stops_at_first_failure [OF run refl, of 0, THEN conjunct1]
    never_rejects_ok [of "targets five_files ?sel"]
  have "moved = length (targets five_files ?sel)
        \<and> attempted evs = [0..<length (targets five_files ?sel)]
        \<and> completed evs = [0..<length (targets five_files ?sel)]
        \<and> Rescan \<in> set evs"
    by blast
  then have "moved = 5 \<and> attempted evs = [0, 1, 2, 3, 4] \<and> completed evs = [0, 1, 2, 3, 4]
        \<and> Rescan \<in> set evs"
    unfolding targets_five length_five upt_small .
  with run show "\<exists>evs moved.
      handleOrganize (Some ''Downloads'') never_rejects five_files ?sel = Some (evs, moved)
      \<and> moved = 5 \<and> attempted evs = [0, 1, 2, 3, 4] \<and> completed evs = [0, 1, 2, 3, 4]
      \<and> Rescan \<in> set evs"
    by blast
qed

text \<open>
  The planner of \<open>handleOrganize\<close> keeps exactly the scanned files that are selected and
  whose category is not Unknown, and every file system call of a run belongs to the
  move of one of these files: there no call is made for an unselected file or for a
  file of category Unknown, selected or not.
\<close>

theorem handleOrganize_plans_selected_known:
  "(f \<in> set (targets fs selectedFiles) \<longleftrightarrow>
      f \<in> set fs \<and> name f \<in> selectedFiles \<and> suggestedCategory f \<noteq> js UNKNOWN)
   \<and> (handleOrganize sourceHandle rejects fs selectedFiles = Some (evs, moved)
        \<and> Call i c b \<in> set evs \<longrightarrow>
          i < length (targets fs selectedFiles)
          \<and> c \<in> set (move_calls (targets fs selectedFiles ! i))
          \<and> targets fs selectedFiles ! i \<in> set fs
          \<and> name (targets fs selectedFiles ! i) \<in> selectedFiles
          \<and> suggestedCategory (targets fs selectedFiles ! i) \<noteq> js UNKNOWN)"
proof (rule conjI)
  show "f \<in> set (targets fs selectedFiles) \<longleftrightarrow>
      f \<in> set fs \<and> name f \<in> selectedFiles \<and> suggestedCategory f \<noteq> js UNKNOWN"
    by (auto simp: targets_def)
next
  show "handleOrganize sourceHandle rejects fs selectedFiles = Some (evs, moved)
        \<and> Call i c b \<in> set evs \<longrightarrow>
          i < length (targets fs selectedFiles)
          \<and> c \<in> set (move_calls (targets fs selectedFiles ! i))
          \<and> targets fs selectedFiles ! i \<in> set fs
          \<and> name (targets fs selectedFiles ! i) \<in> selectedFiles
          \<and> suggestedCategory (targets fs selectedFiles ! i) \<noteq> js UNKNOWN"
  proof
    assume a: "handleOrganize sourceHandle rejects fs selectedFiles = Some (evs, moved)
        \<and> Call i c b \<in> set evs"
    let ?ts = "targets fs selectedFiles"
    from handleOrganize_calls [of sourceHandle rejects fs selectedFiles evs moved i c b] a
    have i: "i < length ?ts" and cb: "(c, b) \<in> set (attempt (rejects i) (move_calls (?ts ! i)))"
      by blast+
    from cb have c: "c \<in> set (move_calls (?ts ! i))"
      using attempt_member by fastforce
    from i have "?ts ! i \<in> set ?ts" by simp
    then have "?ts ! i \<in> set fs \<and> name (?ts ! i) \<in> selectedFiles
               \<and> suggestedCategory (?ts ! i) \<noteq> js UNKNOWN"
      by (auto simp: targets_def)
    with i c show "i < length ?ts \<and> c \<in> set (move_calls (?ts ! i)) \<and> ?ts ! i \<in> set fs
          \<and> name (?ts ! i) \<in> selectedFiles \<and> suggestedCategory (?ts ! i) \<noteq> js UNKNOWN"
      by blast
  qed
qed

theorem handleOrganize_plans_selected_known_witness:
  "mixed_files ! 1 \<in> set mixed_files
   \<and> name (mixed_files ! 1) \<in> set [''a.pdf'', ''mystery.xyz'']
   \<and> suggestedCategory (mixed_files ! 1) = js UNKNOWN
   \<and> mixed_files ! 1 \<notin> set (targets mixed_files (set [''a.pdf'', ''mystery.xyz'']))
   \<and> (\<exists>evs moved.
        handleOrganize (Some ''Downloads'') never_rejects mixed_files (set [''a.pdf'', ''mystery.xyz''])
          = Some (evs, moved)
        \<and> Call 0 (GetFile [''a.pdf'']) False \<in> set evs
        \<and> name (targets mixed_files (set [''a.pdf'', ''mystery.xyz'']) ! 0) = ''a.pdf''
        \<and> suggestedCategory (targets mixed_files (set [''a.pdf'', ''mystery.xyz'']) ! 0) \<noteq> js UNKNOWN)"
proof -
  let ?sel = "set [''a.pdf'', ''mystery.xyz'']"
  let ?u = "mixed_files ! 1"
  have u: "?u \<in> set mixed_files" "name ?u \<in> ?sel" "suggestedCategory ?u = js UNKNOWN"
    by (simp_all add: mixed_files_def)
  have notin: "?u \<notin> set (targets mixed_files ?sel)"
    using handleOrganize_plans_selected_known [of ?u mixed_files ?sel, THEN conjunct1] u(3)
    by simp
  have "GetFile [''a.pdf''] \<in> set (move_calls (targets mixed_files ?sel ! 0))"
    unfolding targets_mixed by (simp add: mixed_files_def move_calls_def Let_def)
  from handleOrganize_done_observed [OF never_rejects_ok _ this, of "''Downloads''"]
  obtain evs where
    run: "handleOrganize (Some ''Downloads'') never_rejects mixed_files ?sel
            = Some (evs, length (targets mixed_files ?sel))"
    and g: "Call 0 (GetFile [''a.pdf'']) False \<in> set evs"
    unfolding targets_mixed by auto
  from handleOrganize_plans_selected_known
         [of _ mixed_files ?sel "Some ''Downloads''" never_rejects evs _ 0 "GetFile [''a.pdf'']" False,
          THEN conjunct2] run g
  have k: "suggestedCategory (targets mixed_files ?sel ! 0) \<noteq> js UNKNOWN"
    by blast
  have nm: "name (targets mixed_files ?sel ! 0) = ''a.pdf''"
    unfolding targets_mixed by (simp add: mixed_files_def)
  from u notin run g k nm show ?thesis by blast
qed

text \<open>
  C2. The spec has no move planned for a file of category Unknown, selected or not. The
  export of the second variant in \<open>src/App.tsx\<close>, \<open>executeExport\<close>, plans
  \<open>files.filter(f => selectedFiles.has(f.name))\<close> with no test of the category: of two
  selected files, one of them Unknown, both are planned, and the Unknown one is moved
  into the directory named \<open>Unknown\<close>.
\<close>

theorem executeExport_plans_unknown:
  "toMove two_files (set [''a.pdf'', ''mystery.xyz'']) = two_files
   \<and> two_files ! 1 \<in> set (toMove two_files (set [''a.pdf'', ''mystery.xyz'']))
   \<and> name (two_files ! 1) = ''mystery.xyz''
   \<and> suggestedCategory (two_files ! 1) = js UNKNOWN
   \<and> export_calls (two_files ! 1)
       = [(DestinationHandle, GetDirectoryHandle [] ''Unknown'' True),
          (SourceHandle, GetFile [''mystery.xyz'']),
          (DestinationHandle, GetFileHandle [''Unknown''] ''mystery.xyz'' True),
          (DestinationHandle, CreateWritable [''Unknown'', ''mystery.xyz'']),
          (DestinationHandle, Write [''Unknown'', ''mystery.xyz''] [''mystery.xyz'']),
          (DestinationHandle, Close [''Unknown'', ''mystery.xyz'']),
          (SourceHandle, RemoveEntry [] ''mystery.xyz'')]"
  by code_simp

text \<open>
  C4. In every run of \<open>handleOrganize\<close>, the removal of a source file comes after the write
  to its destination and the close of the destination have both succeeded, in this order;
  and an operation whose write or close rejects makes no removal at all.
\<close>

theorem handleOrganize_removes_after_close:
  assumes "handleOrganize sourceHandle rejects fs selectedFiles = Some (evs, moved)"
  shows "(Call i (RemoveEntry p n) b \<in> set evs \<longrightarrow>
            (\<exists>f \<in> set (targets fs selectedFiles).
               n = name f
               \<and> before (Call i (Write (newFile_of f) (handle f)) False)
                        (Call i (Close (newFile_of f)) False) evs
               \<and> before (Call i (Close (newFile_of f)) False)
                        (Call i (RemoveEntry p n) b) evs))
       \<and> (Call i (Write newFile fileData) True \<in> set evs \<or> Call i (Close newFile) True \<in> set evs \<longrightarrow>
            (\<forall>p n b. Call i (RemoveEntry p n) b \<notin> set evs))"
proof (rule conjI; rule impI)
  assume rm: "Call i (RemoveEntry p n) b \<in> set evs"
  let ?ts = "targets fs selectedFiles"
  let ?f = "?ts ! i"
  let ?A = "attempt (rejects i) (move_calls ?f)"
  from handleOrganize_calls [OF assms rm] obtain xs ys where
    i: "i < length ?ts" and mem: "(RemoveEntry p n, b) \<in> set ?A"
    and evs: "evs = xs @ map (\<lambda>(c, b). Call i c b) ?A @ ys"
    by blast
  from attempt_removal [OF mem] have n: "n = name ?f"
    and b1: "before (Write (newFile_of ?f) (handle ?f), False) (Close (newFile_of ?f), False) ?A"
    and b2: "before (Close (newFile_of ?f), False) (RemoveEntry p n, b) ?A"
    by blast+
  have e1: "before (Call i (Write (newFile_of ?f) (handle ?f)) False)
                   (Call i (Close (newFile_of ?f)) False) evs"
    unfolding evs by (rule before_segment [OF b1])
  have e2: "before (Call i (Close (newFile_of ?f)) False) (Call i (RemoveEntry p n) b) evs"
    unfolding evs by (rule before_segment [OF b2])
  from i have "?f \<in> set ?ts" by simp
  with n e1 e2 show "\<exists>f \<in> set ?ts. n = name f
               \<and> before (Call i (Write (newFile_of f) (handle f)) False)
                        (Call i (Close (newFile_of f)) False) evs
               \<and> before (Call i (Close (newFile_of f)) False)
                        (Call i (RemoveEntry p n) b) evs"
    by blast
next
  assume bad: "Call i (Write newFile fileData) True \<in> set evs \<or> Call i (Close newFile) True \<in> set evs"
  let ?ts = "targets fs selectedFiles"
  let ?f = "?ts ! i"
  let ?A = "attempt (rejects i) (move_calls ?f)"
  from bad obtain c where c: "c = Write newFile fileData \<or> c = Close newFile"
    and cin: "Call i c True \<in> set evs"
    by blast
  from handleOrganize_calls [OF assms cin] have cm: "(c, True) \<in> set ?A"
    by blast
  then have cmc: "c \<in> set (move_calls ?f)" and cr: "rejects i c"
    using attempt_member by fastforce+
  show "\<forall>p n b. Call i (RemoveEntry p n) b \<notin> set evs"
  proof (intro allI notI)
    fix p n b assume rm: "Call i (RemoveEntry p n) b \<in> set evs"
    from handleOrganize_calls [OF assms rm] have mem: "(RemoveEntry p n, b) \<in> set ?A"
      by blast
    from attempt_removal [OF mem]
    have "\<forall>c \<in> set (move_calls ?f). c \<noteq> RemoveEntry p n \<longrightarrow> \<not> rejects i c"
      by blast
    moreover have "c \<noteq> RemoveEntry p n"
      using c by auto
    ultimately show False
      using cmc cr by blast
  qed
qed

theorem handleOrganize_removes_after_close_witness:
  "\<exists>evs moved.
      handleOrganize (Some ''Downloads'') third_write_fails five_files (set (map name five_files))
        = Some (evs, moved)
      \<and> Call 0 (RemoveEntry [] ''a.pdf'') False \<in> set evs
      \<and> before (Call 0 (Write [''Documents'', ''a.pdf''] [''a.pdf'']) False)
               (Call 0 (Close [''Documents'', ''a.pdf'']) False) evs
      \<and> before (Call 0 (Close [''Documents'', ''a.pdf'']) False)
               (Call 0 (RemoveEntry [] ''a.pdf'') False) evs
      \<and> Call 2 (Write [''Documents'', ''c.pdf''] [''c.pdf'']) True \<in> set evs
      \<and> Call 2 (RemoveEntry [] ''c.pdf'') False \<notin> set evs"
proof -
  let ?sel = "set (map name five_files)"
  obtain evs moved where
    run: "handleOrganize (Some ''Downloads'') third_write_fails five_files ?sel = Some (evs, moved)"
    using handleOrganize_Some by blast
  note calls = handleOrganize_failed_calls [OF third_write_fails_setup run, unfolded targets_five]
  have mc0: "move_calls (five_files ! 0) =
      [GetDirectoryHandle [] ''Documents'' True, GetFile [''a.pdf''],
       GetFileHandle [''Documents''] ''a.pdf'' True, CreateWritable [''Documents'', ''a.pdf''],
       Write [''Documents'', ''a.pdf''] [''a.pdf''], Close [''Documents'', ''a.pdf''],
       RemoveEntry [] ''a.pdf'']"
    and mc2: "move_calls (five_files ! 2) =
      [GetDirectoryHandle [] ''Documents'' True, GetFile [''c.pdf''],
       GetFileHandle [''Documents''] ''c.pdf'' True, CreateWritable [''Documents'', ''c.pdf''],
       Write [''Documents'', ''c.pdf''] [''c.pdf''], Close [''Documents'', ''c.pdf''],
       RemoveEntry [] ''c.pdf'']"
    by (simp_all add: five_files_def move_calls_def Let_def js_def)
  have rm0: "Call 0 (RemoveEntry [] ''a.pdf'') False \<in> set evs"
    using calls [of 0 "RemoveEntry [] ''a.pdf''", THEN conjunct1] by (simp add: mc0)
  have "(Write [''Documents'', ''c.pdf''] [''c.pdf''], True)
          \<in> set (attempt (third_write_fails 2) (move_calls (five_files ! 2)))"
    by (simp add: mc2 third_write_fails_def)
  then have w2: "Call 2 (Write [''Documents'', ''c.pdf''] [''c.pdf'']) True \<in> set evs"
    using calls [of _ "Write [''Documents'', ''c.pdf''] [''c.pdf'']" True, THEN conjunct2] by blast
  from handleOrganize_removes_after_close [OF run, of 0 "[]" "''a.pdf''" False, THEN conjunct1] rm0
  obtain f where f: "f \<in> set (targets five_files ?sel)" "''a.pdf'' = name f"
    and b1: "before (Call 0 (Write (newFile_of f) (handle f)) False)
                    (Call 0 (Close (newFile_of f)) False) evs"
    and b2: "before (Call 0 (Close (newFile_of f)) False)
                    (Call 0 (RemoveEntry [] ''a.pdf'') False) evs"
    by blast
  from f(1) f(2) [symmetric] have "f = five_files ! 0"
    unfolding targets_five by (auto simp: five_files_def)
  then have "newFile_of f = [''Documents'', ''a.pdf'']" "handle f = [''a.pdf'']"
    by (simp_all add: five_files_def newFile_of_def js_def)
  with b1 b2 have
    b1': "before (Call 0 (Write [''Documents'', ''a.pdf''] [''a.pdf'']) False)
               (Call 0 (Close [''Documents'', ''a.pdf'']) False) evs"
    and b2': "before (Call 0 (Close [''Documents'', ''a.pdf'']) False)
               (Call 0 (RemoveEntry [] ''a.pdf'') False) evs"
    by simp_all
  from handleOrganize_removes_after_close
         [OF run, of 2 _ _ _ "[''Documents'', ''c.pdf'']" "[''c.pdf'']", THEN conjunct2] w2
  have "Call 2 (RemoveEntry [] ''c.pdf'') False \<notin> set evs"
    by blast
  with run rm0 b1' b2' w2 show ?thesis by blast
qed

text \<open>
  In \<open>handleOrganize\<close>, in a batch of \<open>N > 0\<close> planned operations on which no call rejects,
  the progress is set to 0 and then, after the operation that brings the count of
  completed ones to \<open>completedCount\<close>, to \<open>Math.round(completedCount / N * 100)\<close> computed
  on doubles; the sequence of these values is non-decreasing, stays between 0 and 100 and
  ends with 100, and all \<open>N\<close> operations are completed.
\<close>

theorem handleOrganize_progress:
  assumes "handleOrganize (Some h) rejects fs selectedFiles = Some (evs, moved)"
    and "ts = targets fs selectedFiles"
    and "ts \<noteq> []"
    and "\<forall>i < length ts. \<forall>c \<in> set (move_calls (ts ! i)). \<not> rejects i c"
  shows "progress_values evs
           = 0 # map (\<lambda>completedCount. progress_value completedCount (length ts)) [1..<Suc (length ts)]
       \<and> sorted (progress_values evs)
       \<and> last (progress_values evs) = 100
       \<and> (\<forall>p \<in> set (progress_values evs). 0 \<le> p \<and> p \<le> 100)
       \<and> moved = length ts"
proof -
  let ?n = "length ts"
  let ?pv = "\<lambda>k. progress_value k ?n"
  from handleOrganize_done [of fs selectedFiles rejects h] assms
  have evs: "evs = [Log INFO ''Executing batch organization...'', SetOrganizing True, SetProgress 0]
           @ done_events ?n 0 ts
           @ [Log SUCCESS (''Organized '' @ show_nat ?n @ '' files successfully.''), Rescan]
           @ [SetOrganizing False]"
    and moved: "moved = ?n"
    by simp_all
  have pv: "progress_values evs = 0 # map ?pv [1..<Suc ?n]"
    unfolding evs progress_values_def
    by (simp add: map_filter_append List.map_filter_simps done_events_progress del: upt_Suc)
  have n: "0 < ?n"
    using assms(3) by simp
  have "sorted_wrt (\<lambda>x y. ?pv x \<le> ?pv y) [1..<Suc ?n]"
  proof (rule sorted_wrt_mono_rel [of _ "(\<le>)"])
    show "\<And>x y. x \<le> y \<Longrightarrow> ?pv x \<le> ?pv y"
      by (rule progress_value_mono)
    show "sorted_wrt (\<le>) [1..<Suc ?n]"
      by (rule sorted_upt)
  qed
  then have mono: "sorted (map ?pv [1..<Suc ?n])"
    unfolding sorted_map .
  have nonneg: "\<forall>p \<in> set (map ?pv [1..<Suc ?n]). 0 \<le> p"
    by (auto simp: progress_value_nonneg)
  have le100: "\<forall>p \<in> set (map ?pv [1..<Suc ?n]). p \<le> 100"
  proof
    fix p assume "p \<in> set (map ?pv [1..<Suc ?n])"
    then obtain k where "k < Suc ?n" and p: "p = ?pv k"
      by (auto simp del: upt_Suc)
    then have k: "k \<le> ?n"
      by simp
    from progress_value_mono [OF k, of ?n] progress_value_full [OF n] p show "p \<le> 100"
      by simp
  qed
  have srt: "sorted (progress_values evs)"
    unfolding pv using mono nonneg by simp
  have "[1..<Suc ?n] = [1..<?n] @ [?n]"
    using assms(3) by (cases ts) simp_all
  then have "last (map ?pv [1..<Suc ?n]) = ?pv ?n"
    by simp
  then have lst: "last (progress_values evs) = 100"
    unfolding pv using n progress_value_full [OF n] by (simp del: upt_Suc)
  have rng: "\<forall>p \<in> set (progress_values evs). 0 \<le> p \<and> p \<le> 100"
    unfolding pv using nonneg le100 by simp
  from pv srt lst rng moved show ?thesis by blast
qed

theorem handleOrganize_progress_witness:
  "five_files \<noteq> []
   \<and> (\<exists>evs moved.
        handleOrganize (Some ''Downloads'') never_rejects five_files (set (map name five_files))
          = Some (evs, moved)
        \<and> progress_values evs
            = [0, progress_value 1 5, progress_value 2 5, progress_value 3 5, progress_value 4 5,
               progress_value 5 5]
        \<and> sorted (progress_values evs)
        \<and> last (progress_values evs) = 100
        \<and> moved = 5)"
proof -
  let ?sel = "set (map name five_files)"
  have ne: "five_files \<noteq> []"
    by (simp add: five_files_def)
  obtain evs moved where
    run: "handleOrganize (Some ''Downloads'') never_rejects five_files ?sel = Some (evs, moved)"
    using handleOrganize_Some by blast
  have ts: "five_files = targets five_files ?sel"
    by (simp only: targets_five)
  note th = handleOrganize_progress [OF run ts ne never_rejects_ok [of five_files],
      unfolded length_five]
  from th have pv: "progress_values evs
      = 0 # map (\<lambda>completedCount. progress_value completedCount 5) [1..<Suc 5]"
    by (rule conjunct1)
  have "[1..<Suc 5] = [1, 2, 3, 4, 5]"
    by (simp add: upt_rec)
  with pv have pv': "progress_values evs
            = [0, progress_value 1 5, progress_value 2 5, progress_value 3 5, progress_value 4 5,
               progress_value 5 5]"
    by simp
  from th have "sorted (progress_values evs)" "last (progress_values evs) = 100" "moved = 5"
    by blast+
  with pv' ne run show ?thesis by blast
qed

text \<open>
  C7. The spec has the progress after each completed operation be
  \<open>round(completedCount / totalCount \<times> 100)\<close>, \<open>totalCount\<close> being the number of planned
  operations. \<open>organizeFiles\<close> divides by \<open>files.length\<close>, which counts the Unknown files
  it passes over: with two files to move and two Unknown files there are two planned
  operations; the progress is 25 after the first and 50 after the second, where the
  formula of the spec gives 50 and 100. The 100 is set after the loop only.
\<close>

theorem organizeFiles_progress_counts_skipped:
  "organizeFiles (Some ''Downloads'') never_rejects four_files
     = Some ([SetOrganizing True, SetProgress 0,
              Call 0 (GetDirectoryHandle [] ''Documents'' True) False,
              Call 0 (GetFile [''a.pdf'']) False,
              Call 0 (GetFileHandle [''Documents''] ''a.pdf'' True) False,
              Call 0 (CreateWritable [''Documents'', ''a.pdf'']) False,
              Call 0 (Write [''Documents'', ''a.pdf''] [''a.pdf'']) False,
              Call 0 (Close [''Documents'', ''a.pdf'']) False,
              Call 0 (RemoveEntry [] ''a.pdf'') False,
              SetProgress 25,
              Call 1 (GetFile [''b.pdf'']) False,
              Call 1 (GetFileHandle [''Documents''] ''b.pdf'' True) False,
              Call 1 (CreateWritable [''Documents'', ''b.pdf'']) False,
              Call 1 (Write [''Documents'', ''b.pdf''] [''b.pdf'']) False,
              Call 1 (Close [''Documents'', ''b.pdf'']) False,
              Call 1 (RemoveEntry [] ''b.pdf'') False,
              SetProgress 50,
              SetOrganizing False, SetProgress 100],
             Organized 2)
   \<and> length (filter (\<lambda>f. suggestedCategory f \<noteq> js UNKNOWN) four_files) = 2
   \<and> spec_progress 1 2 = 50
   \<and> spec_progress 2 2 = 100"
proof -
  have calls_a: "copy_calls (four_files ! 0) =
      [GetFile [''a.pdf''], GetFileHandle [''Documents''] ''a.pdf'' True,
       CreateWritable [''Documents'', ''a.pdf''], Write [''Documents'', ''a.pdf''] [''a.pdf''],
       Close [''Documents'', ''a.pdf''], RemoveEntry [] ''a.pdf'']"
    and calls_b: "copy_calls (four_files ! 2) =
      [GetFile [''b.pdf''], GetFileHandle [''Documents''] ''b.pdf'' True,
       CreateWritable [''Documents'', ''b.pdf''], Write [''Documents'', ''b.pdf''] [''b.pdf''],
       Close [''Documents'', ''b.pdf''], RemoveEntry [] ''b.pdf'']"
    by (simp_all add: copy_calls_def four_files_def js_def Let_def)
  have loop: "organizeFiles_loop never_rejects 4 four_files 0
          = (map (\<lambda>c. Call 0 c False) (copy_calls (four_files ! 0)) @ [SetProgress 25]
             @ map (\<lambda>c. Call 1 c False) (copy_calls (four_files ! 2)) @ [SetProgress 50],
             2, True)"
    by (simp add: four_files_def never_rejects_def copy_calls_def js_def
        progress_value_quarter progress_value_two_of_four list_ex_iff Let_def)
  have created: "create_calls four_files = [GetDirectoryHandle [] ''Documents'' True]"
    by (simp add: create_calls_def categoriesToCreate_def four_files_def js_def)
  have len: "length four_files = 4"
    by (simp add: four_files_def)
  have "organizeFiles (Some ''Downloads'') never_rejects four_files
     = Some ([SetOrganizing True, SetProgress 0,
              Call 0 (GetDirectoryHandle [] ''Documents'' True) False]
             @ map (\<lambda>c. Call 0 c False) (copy_calls (four_files ! 0)) @ [SetProgress 25]
             @ map (\<lambda>c. Call 1 c False) (copy_calls (four_files ! 2)) @ [SetProgress 50]
             @ [SetOrganizing False, SetProgress 100],
             Organized 2)"
    using loop created len by (simp add: organizeFiles_def never_rejects_def Let_def)
  moreover have "length (filter (\<lambda>f. suggestedCategory f \<noteq> js UNKNOWN) four_files) = 2"
    by (simp add: four_files_def js_def)
  moreover have "spec_progress 1 2 = 50" "spec_progress 2 2 = 100"
    by (simp_all add: spec_progress_def)
  ultimately show ?thesis
    unfolding calls_a calls_b by simp
qed

text \<open>
  The scan of \<open>performScan\<close> returns a list of records exactly when no read it reaches
  rejects. The records it returns are then those of the files reachable from the root by
  a traversal of any depth whose place (the directory names from the root, then the file
  name) holds no excluded name, in traversal order. When the names of the tree are
  non-empty and hold no \<open>/\<close>, the segments of a record's \<open>path\<close> are its place, so no
  record's path has a segment that is an excluded name, at any depth.
\<close>

theorem scan_reachable_not_excluded:
  "(readable excludedFolders rootEntries
      \<longleftrightarrow> (\<exists>foundFiles. scan excludedFolders [] '''' rootEntries [] = Inr foundFiles))
   \<and> (scan excludedFolders [] '''' rootEntries [] = Inr foundFiles \<longrightarrow>
        map handle foundFiles
          = filter (\<lambda>place. set place \<inter> excludedFolders = {}) (reachable_files [] rootEntries)
        \<and> ((\<forall>nm \<in> set (entry_names rootEntries). nm \<noteq> '''' \<and> CHR ''/'' \<notin> set nm) \<longrightarrow>
             (\<forall>f \<in> set foundFiles.
                split CHR ''/'' (path f) = handle f
                \<and> set (split CHR ''/'' (path f)) \<inter> excludedFolders = {})))"
proof (intro conjI impI)
  show "readable excludedFolders rootEntries
      \<longleftrightarrow> (\<exists>foundFiles. scan excludedFolders [] '''' rootEntries [] = Inr foundFiles)"
    by (rule scan_readable)
next
  assume run: "scan excludedFolders [] '''' rootEntries [] = Inr foundFiles"
  from scan_handles [OF run] show
    h: "map handle foundFiles
          = filter (\<lambda>place. set place \<inter> excludedFolders = {}) (reachable_files [] rootEntries)"
    by simp
  assume names: "\<forall>nm \<in> set (entry_names rootEntries). nm \<noteq> '''' \<and> CHR ''/'' \<notin> set nm"
  have seg: "\<forall>f \<in> set foundFiles. segments (path f) = handle f"
    by (rule scan_paths [OF run _ names]) (simp_all add: segments_def)
  show "\<forall>f \<in> set foundFiles.
                split CHR ''/'' (path f) = handle f
                \<and> set (split CHR ''/'' (path f)) \<inter> excludedFolders = {}"
  proof
    fix f assume f: "f \<in> set foundFiles"
    then have "handle f \<in> set (map handle foundFiles)"
      by simp
    then have in_f: "handle f \<in> set (filter (\<lambda>place. set place \<inter> excludedFolders = {})
                                   (reachable_files [] rootEntries))"
      unfolding h .
    then have ne: "handle f \<noteq> []" and ex: "set (handle f) \<inter> excludedFolders = {}"
      using reachable_files_not_Nil by auto
    from seg f have "segments (path f) = handle f"
      by blast
    from segments_split [OF this ne] ex
    show "split CHR ''/'' (path f) = handle f
                \<and> set (split CHR ''/'' (path f)) \<inter> excludedFolders = {}"
      by simp
  qed
qed

theorem scan_reachable_not_excluded_witness:
  "readable {''node_modules''} example_tree
   \<and> (\<exists>foundFiles.
        scan {''node_modules''} [] '''' example_tree [] = Inr foundFiles
        \<and> map handle foundFiles = [[''src'', ''a.ts''], [''readme.md'']]
        \<and> map path foundFiles = [''src/a.ts'', ''readme.md'']
        \<and> [''src'', ''node_modules'', ''b.js''] \<in> set (reachable_files [] example_tree)
        \<and> [''src'', ''node_modules'', ''b.js''] \<notin> set (map handle foundFiles))"
proof -
  have r: "readable {''node_modules''} example_tree"
    by (simp add: example_tree_def)
  with scan_reachable_not_excluded [of "{''node_modules''}" example_tree, THEN conjunct1]
  obtain foundFiles where
    run: "scan {''node_modules''} [] '''' example_tree [] = Inr foundFiles"
    by blast
  have names: "\<forall>nm \<in> set (entry_names example_tree). nm \<noteq> '''' \<and> CHR ''/'' \<notin> set nm"
    by (simp add: example_tree_def)
  from scan_reachable_not_excluded [of "{''node_modules''}" example_tree foundFiles,
      THEN conjunct2] run names
  have h: "map handle foundFiles
          = filter (\<lambda>place. set place \<inter> {''node_modules''} = {}) (reachable_files [] example_tree)"
    and p: "\<forall>f \<in> set foundFiles. split CHR ''/'' (path f) = handle f"
    by blast+
  have h': "map handle foundFiles = [[''src'', ''a.ts''], [''readme.md'']]"
    unfolding h by (simp add: example_tree_def)
  have run': "scan {''node_modules''} [] '''' example_tree [] =
      Inr [\<lparr>name = ''a.ts'', kind = File, size' = 10, lastModified = 0,
             extension = extension_of ''a.ts'', suggestedCategory = js UNKNOWN,
             handle = [''src'', ''a.ts''], path = ''src/a.ts''\<rparr>,
           \<lparr>name = ''readme.md'', kind = File, size' = 5, lastModified = 0,
             extension = extension_of ''readme.md'', suggestedCategory = js UNKNOWN,
             handle = [''readme.md''], path = ''readme.md''\<rparr>]"
    by (simp add: example_tree_def child_path_def)
  with run have pth: "map path foundFiles = [''src/a.ts'', ''readme.md'']"
    by auto
  have reach: "[''src'', ''node_modules'', ''b.js''] \<in> set (reachable_files [] example_tree)"
    by (simp add: example_tree_def)
  have notin: "[''src'', ''node_modules'', ''b.js''] \<notin> set (map handle foundFiles)"
    unfolding h' by simp
  have "scan {''node_modules''} [] '''' example_tree [] = Inr foundFiles
        \<and> map handle foundFiles = [[''src'', ''a.ts''], [''readme.md'']]
        \<and> map path foundFiles = [''src/a.ts'', ''readme.md'']
        \<and> [''src'', ''node_modules'', ''b.js''] \<in> set (reachable_files [] example_tree)
        \<and> [''src'', ''node_modules'', ''b.js''] \<notin> set (map handle foundFiles)"
    by (intro conjI run h' pth reach notin)
  then have "\<exists>foundFiles.
        scan {''node_modules''} [] '''' example_tree [] = Inr foundFiles
        \<and> map handle foundFiles = [[''src'', ''a.ts''], [''readme.md'']]
        \<and> map path foundFiles = [''src/a.ts'', ''readme.md'']
        \<and> [''src'', ''node_modules'', ''b.js''] \<in> set (reachable_files [] example_tree)
        \<and> [''src'', ''node_modules'', ''b.js''] \<notin> set (map handle foundFiles)"
    by (rule exI)
  with r show ?thesis
    by (rule conjI)
qed

text \<open>
  C8. The spec has the walker give a record to every file reachable at any depth.
  \<open>scanDirectory\<close> of \<open>src/App.tsx\<close> reads the entries directly under the picked directory
  and passes over the directories: of the tree with \<open>src/a.ts\<close>,
  \<open>src/node_modules/b.js\<close> and \<open>readme.md\<close> it finds \<open>readme.md\<close> only. \<open>src/a.ts\<close> is
  reachable, no part of its path is an excluded name, and it gets no record.
\<close>

theorem scanDirectory_skips_subdirectories:
  "list_files example_tree []
     = Inr [\<lparr>name = ''readme.md'', kind = File, size' = 5, lastModified = 0, extension = ''md'',
              suggestedCategory = js UNKNOWN, handle = [''readme.md'']\<rparr>]
   \<and> [''src'', ''a.ts''] \<in> set (reachable_files [] example_tree)
   \<and> set [''src'', ''a.ts''] \<inter> {''node_modules''} = {}"
  by code_simp

text \<open>
  C9. The duplicate groups of a scanned list are one group for each size that at least
  two files of the list have, and no other: the group's id is \<open>size-\<close> followed by the
  size in decimal, its files are the files of that size in scan order, and \<open>resolved\<close> is
  false. The ids of the groups are pairwise different, and a file whose size no other
  file has is in no group.
\<close>

theorem duplicate_groups_by_size:
  "(\<exists>ns. distinct ns
      \<and> set ns = {n. 2 \<le> length (filter (\<lambda>f. size' f = n) foundFiles)}
      \<and> duplicate_groups foundFiles
          = map (\<lambda>n. \<lparr>id' = ''size-'' @ show_nat n,
                       files = filter (\<lambda>f. size' f = n) foundFiles,
                       resolved = False\<rparr>) ns)
   \<and> distinct (map id' (duplicate_groups foundFiles))
   \<and> (f \<in> set foundFiles \<and> length (filter (\<lambda>f'. size' f' = size' f) foundFiles) = 1 \<longrightarrow>
        f \<notin> set (concat (map files (duplicate_groups foundFiles))))"
proof -
  let ?G = "\<lambda>n. \<lparr>id' = ''size-'' @ show_nat n, files = filter (\<lambda>f. size' f = n) foundFiles,
                       resolved = False\<rparr>"
  from duplicate_groups_eq [of foundFiles] obtain ns where
    d: "distinct ns"
    and s: "set ns = {n. 2 \<le> length (filter (\<lambda>f. size' f = n) foundFiles)}"
    and e: "duplicate_groups foundFiles = map ?G ns"
    by blast
  have "inj_on (\<lambda>n. ''size-'' @ show_nat n) (set ns)"
    by (rule inj_onI) (simp add: show_nat_inj)
  with d have ids: "distinct (map id' (duplicate_groups foundFiles))"
    unfolding e by (simp add: distinct_map comp_def)
  have uniq: "f \<notin> set (concat (map files (duplicate_groups foundFiles)))"
    if "f \<in> set foundFiles \<and> length (filter (\<lambda>f'. size' f' = size' f) foundFiles) = 1"
  proof
    assume "f \<in> set (concat (map files (duplicate_groups foundFiles)))"
    then obtain n where "n \<in> set ns" and "f \<in> set (filter (\<lambda>f. size' f = n) foundFiles)"
      unfolding e by auto
    with s have "2 \<le> length (filter (\<lambda>f'. size' f' = size' f) foundFiles)"
      by auto
    with that show False
      by simp
  qed
  from d s e ids uniq show ?thesis
    by blast
qed

theorem duplicate_groups_by_size_witness:
  "six_files ! 2 \<in> set six_files
   \<and> size' (six_files ! 2) = 200
   \<and> length (filter (\<lambda>f'. size' f' = size' (six_files ! 2)) six_files) = 1
   \<and> six_files ! 2 \<notin> set (concat (map files (duplicate_groups six_files)))
   \<and> map id' (duplicate_groups six_files) = [''size-100'', ''size-300'']
   \<and> map (\<lambda>g. map name (files g)) (duplicate_groups six_files)
       = [[''f1.bin'', ''f2.bin''], [''f4.bin'', ''f5.bin'', ''f6.bin'']]
   \<and> map resolved (duplicate_groups six_files) = [False, False]"
proof -
  have a: "six_files ! 2 \<in> set six_files"
    by (simp add: six_files_def)
  have b: "size' (six_files ! 2) = 200"
    by (simp add: six_files_def)
  have c: "length (filter (\<lambda>f'. size' f' = size' (six_files ! 2)) six_files) = 1"
    by (simp add: six_files_def)
  from duplicate_groups_by_size [of six_files "six_files ! 2"] a c
  have d: "six_files ! 2 \<notin> set (concat (map files (duplicate_groups six_files)))"
    by (elim conjE) simp
  from a b c d duplicate_groups_six show ?thesis
    by (intro conjI) simp_all
qed

end
